theory Spec2Isabelle
  imports Complex_Main
begin

section \<open>Threshold counting over a sorted array (lib/cumulative-utils.ts)\<close>

text \<open>
  Numbers are modelled as exact reals; array indices and counts are natural numbers.
  The midpoint \<^verbatim>\<open>(l + r) >> 1\<close> is modelled as the floor of half the sum.  The shift
  works on the 32-bit value of \<^verbatim>\<open>l + r\<close>, which is \<^verbatim>\<open>l + r\<close> itself as long as the
  array has fewer than \<open>2^30\<close> elements: the model is of such arrays.  A read
  \<^verbatim>\<open>arr[m]\<close> beyond the end of the array is \<^verbatim>\<open>undefined\<close>, and every comparison with
  it is false; the guard \<open>m < length arr\<close> writes that out.
\<close>

function lowerBound_loop :: "real list \<Rightarrow> real \<Rightarrow> nat \<Rightarrow> nat \<Rightarrow> nat" where
  "lowerBound_loop arr x l r =
     (if l < r then
        (let m = (l + r) div 2 in
         if m < length arr \<and> arr ! m < x then lowerBound_loop arr x (m + 1) r
         else lowerBound_loop arr x l m)
      else l)"
  by pat_completeness auto
termination
  by (relation "measure (\<lambda>(arr, x, l, r). r - l)") auto

definition lowerBound :: "real list \<Rightarrow> real \<Rightarrow> nat" where
  "lowerBound arr x = lowerBound_loop arr x 0 (length arr)"

function upperBound_loop :: "real list \<Rightarrow> real \<Rightarrow> nat \<Rightarrow> nat \<Rightarrow> nat" where
  "upperBound_loop arr x l r =
     (if l < r then
        (let m = (l + r) div 2 in
         if m < length arr \<and> arr ! m \<le> x then upperBound_loop arr x (m + 1) r
         else upperBound_loop arr x l m)
      else l)"
  by pat_completeness auto
termination
  by (relation "measure (\<lambda>(arr, x, l, r). r - l)") auto

definition upperBound :: "real list \<Rightarrow> real \<Rightarrow> nat" where
  "upperBound arr x = upperBound_loop arr x 0 (length arr)"

text \<open>
  The filter mode is a string at run time; the \<^verbatim>\<open>switch\<close> has a \<^verbatim>\<open>default\<close> branch
  for every string that is none of the four modes.
\<close>

definition getCountAtThreshold :: "string \<Rightarrow> real list \<Rightarrow> real \<Rightarrow> nat" where
  "getCountAtThreshold mode sortedValues t =
     (if length sortedValues = 0 then 0
      else if mode = ''lt'' then lowerBound sortedValues t
      else if mode = ''lte'' then upperBound sortedValues t
      else if mode = ''gt'' then
        (let i = upperBound sortedValues t
         in nat (max 0 (int (length sortedValues) - int i)))
      else if mode = ''gte'' then
        (let i = lowerBound sortedValues t
         in nat (max 0 (int (length sortedValues) - int i)))
      else upperBound sortedValues t)"

section \<open>Numbers that are not finite\<close>

text \<open>
  A finite number is an exact real.  Division by zero and the logarithm of a number
  that is not positive leave the reals, so their results are numbers of this type:
  a real, one of the two infinities, or NaN.  The operations follow IEEE 754 on the
  special values and are exact on the finite ones.  There is one zero: the zero
  divisors of this program are widths of a layout rectangle, which are never \<^verbatim>\<open>-0\<close>.
\<close>

datatype jsnum = Fin real | PInf | NInf | NaN

fun js_neg :: "jsnum \<Rightarrow> jsnum" where
  "js_neg (Fin a) = Fin (- a)"
| "js_neg PInf = NInf"
| "js_neg NInf = PInf"
| "js_neg NaN = NaN"

fun js_add :: "jsnum \<Rightarrow> jsnum \<Rightarrow> jsnum" where
  "js_add NaN b = NaN"
| "js_add a NaN = NaN"
| "js_add (Fin a) (Fin b) = Fin (a + b)"
| "js_add PInf NInf = NaN"
| "js_add NInf PInf = NaN"
| "js_add PInf b = PInf"
| "js_add NInf b = NInf"
| "js_add (Fin a) b = b"

definition js_sub :: "jsnum \<Rightarrow> jsnum \<Rightarrow> jsnum" where
  "js_sub a b = js_add a (js_neg b)"

fun js_sign :: "jsnum \<Rightarrow> int" where
  "js_sign (Fin a) = (if a > 0 then 1 else if a < 0 then - 1 else 0)"
| "js_sign PInf = 1"
| "js_sign NInf = - 1"
| "js_sign NaN = 0"

fun js_mul :: "jsnum \<Rightarrow> jsnum \<Rightarrow> jsnum" where
  "js_mul NaN b = NaN"
| "js_mul a NaN = NaN"
| "js_mul (Fin a) (Fin b) = Fin (a * b)"
| "js_mul a b =
     (if js_sign a * js_sign b > 0 then PInf
      else if js_sign a * js_sign b < 0 then NInf
      else NaN)"

text \<open>\<^verbatim>\<open>a / b\<close> on two finite numbers.\<close>

definition js_div :: "real \<Rightarrow> real \<Rightarrow> jsnum" where
  "js_div a b =
     (if b \<noteq> 0 then Fin (a / b)
      else if a > 0 then PInf
      else if a < 0 then NInf
      else NaN)"

text \<open>\<^verbatim>\<open>Math.log\<close> of a finite number and \<^verbatim>\<open>Math.exp\<close>.\<close>

definition js_log :: "real \<Rightarrow> jsnum" where
  "js_log a = (if a > 0 then Fin (ln a) else if a = 0 then NInf else NaN)"

fun js_exp :: "jsnum \<Rightarrow> jsnum" where
  "js_exp (Fin a) = Fin (exp a)"
| "js_exp PInf = PInf"
| "js_exp NInf = Fin 0"
| "js_exp NaN = NaN"

text \<open>\<^verbatim>\<open>a || b\<close> on numbers: zero and NaN are falsy.\<close>

fun js_or :: "jsnum \<Rightarrow> jsnum \<Rightarrow> jsnum" where
  "js_or NaN b = b"
| "js_or (Fin a) b = (if a = 0 then b else Fin a)"
| "js_or a b = a"

text \<open>\<^verbatim>\<open>Math.min\<close> and \<^verbatim>\<open>Math.max\<close> of two numbers.\<close>

fun js_min :: "jsnum \<Rightarrow> jsnum \<Rightarrow> jsnum" where
  "js_min NaN b = NaN"
| "js_min a NaN = NaN"
| "js_min NInf b = NInf"
| "js_min a NInf = NInf"
| "js_min PInf b = b"
| "js_min a PInf = a"
| "js_min (Fin a) (Fin b) = Fin (min a b)"

fun js_max :: "jsnum \<Rightarrow> jsnum \<Rightarrow> jsnum" where
  "js_max NaN b = NaN"
| "js_max a NaN = NaN"
| "js_max PInf b = PInf"
| "js_max a PInf = PInf"
| "js_max NInf b = b"
| "js_max a NInf = a"
| "js_max (Fin a) (Fin b) = Fin (max a b)"

section \<open>Scale mapping (lib/cumulative-utils.ts)\<close>

text \<open>
  \<^verbatim>\<open>thresholdToPercentage\<close>, with \<open>minV\<close> and \<open>maxV\<close> for the parameters \<^verbatim>\<open>min\<close> and
  \<^verbatim>\<open>max\<close>.  Every operand is finite on each path: the logarithms are
  taken of positive numbers only, and both divisors are differences of two distinct
  numbers (\<open>ln\<close> is injective on the positive reals), so the result is a real.

  This is the function over exact real arithmetic.  On doubles the difference
  \<^verbatim>\<open>max - min\<close> can overflow to infinity, and the logarithms of two distinct adjacent
  doubles can be the same double; the code then returns 0 or NaN where this
  definition returns the exact quotient.  What is proved of this definition is proved
  over exact reals only.  The function with its roundings written out is
  \<open>thresholdToPercentage_fl\<close>, below.
\<close>

definition thresholdToPercentage :: "real \<Rightarrow> real \<Rightarrow> real \<Rightarrow> bool \<Rightarrow> real" where
  "thresholdToPercentage minV maxV t logScale =
     (if maxV = minV then 0
      else if logScale \<and> minV > 0 \<and> maxV > 0 \<and> t > 0 then
        (let logMin = ln minV; logMax = ln maxV; logT = ln t
         in ((logT - logMin) / (logMax - logMin)) * 100)
      else ((t - minV) / (maxV - minV)) * 100)"

section \<open>Tick generation (lib/cumulative-utils.ts)\<close>

text \<open>
  The two \<^verbatim>\<open>for\<close> loops of \<^verbatim>\<open>computeTicks\<close>.  The count is a number, not
  necessarily an integer; the loops run while \<^verbatim>\<open>i < count\<close>.
\<close>

function computeTicks_log_loop :: "jsnum \<Rightarrow> jsnum \<Rightarrow> real \<Rightarrow> nat \<Rightarrow> jsnum list \<Rightarrow> jsnum list" where
  "computeTicks_log_loop logMin logMax count i ticks =
     (if real i < count then
        (let logValue = js_add logMin (js_mul (Fin (real i / (count - 1))) (js_sub logMax logMin))
         in computeTicks_log_loop logMin logMax count (i + 1) (ticks @ [js_exp logValue]))
      else ticks)"
  by pat_completeness auto
termination
  by (relation "measure (\<lambda>(logMin, logMax, count, i, ticks). nat \<lceil>count\<rceil> - i)")
    (auto simp: zless_nat_eq_int_zless less_ceiling_iff intro!: diff_less_mono2)

function computeTicks_linear_loop :: "real \<Rightarrow> real \<Rightarrow> real \<Rightarrow> nat \<Rightarrow> jsnum list \<Rightarrow> jsnum list" where
  "computeTicks_linear_loop minValue maxValue count i ticks =
     (if real i < count then
        computeTicks_linear_loop minValue maxValue count (i + 1)
          (ticks @ [Fin (minValue + (real i / (count - 1)) * (maxValue - minValue))])
      else ticks)"
  by pat_completeness auto
termination
  by (relation "measure (\<lambda>(minValue, maxValue, count, i, ticks). nat \<lceil>count\<rceil> - i)")
    (auto simp: zless_nat_eq_int_zless less_ceiling_iff intro!: diff_less_mono2)

text \<open>
  \<^verbatim>\<open>computeTicks\<close>.  The optional \<^verbatim>\<open>xAxisTicks\<close> is an option; \<^verbatim>\<open>Math.round\<close> rounds
  halves up, as \<open>round\<close> does.  The division \<^verbatim>\<open>i / (count - 1)\<close> is only reached with
  \<open>count \<ge> 2\<close>.
\<close>

definition computeTicks :: "real \<Rightarrow> real \<Rightarrow> bool \<Rightarrow> real \<Rightarrow> real option \<Rightarrow> jsnum list option" where
  "computeTicks minValue maxValue logScale containerWidth xAxisTicks =
     (if maxValue = minValue then None
      else
        (let autoTickCount = max 6 (round ((if containerWidth = 0 then 0 else containerWidth) / 40));
             count = (case xAxisTicks of Some c \<Rightarrow> c | None \<Rightarrow> of_int autoTickCount)
         in if count = 0 \<or> count < 2 then None
            else if logScale \<and> minValue > 0 then
              (let logMin = js_log minValue; logMax = js_log maxValue
               in Some (computeTicks_log_loop logMin logMax count 0 []))
            else Some (computeTicks_linear_loop minValue maxValue count 0 [])))"

section \<open>The distribution of the component (components/cumulative-density-filter.tsx)\<close>

text \<open>
  A point of the chart, \<^verbatim>\<open>{ value, count }\<close>, and the result of the memoised
  computation at the head of \<^verbatim>\<open>CumulativeDensityFilter\<close>,
  \<^verbatim>\<open>{ chartData, minValue, maxValue, sortedValues }\<close>.  The locals \<^verbatim>\<open>sorted\<close>,
  \<^verbatim>\<open>min\<close> and \<^verbatim>\<open>max\<close> are written \<open>sortedV\<close>, \<open>minV\<close> and \<open>maxV\<close>.
\<close>

record point =
  pt_value :: real
  pt_count :: nat

record distribution =
  chartData :: "point list"
  minValue :: real
  maxValue :: real
  sortedValues :: "real list"

text \<open>The inner \<^verbatim>\<open>while\<close> loop of the binning: the running index moves past every
  element that is at most the boundary.\<close>

function advance_index :: "real list \<Rightarrow> real \<Rightarrow> nat \<Rightarrow> nat" where
  "advance_index sortedV binValue currentIndex =
     (if currentIndex < length sortedV \<and> sortedV ! currentIndex \<le> binValue
      then advance_index sortedV binValue (currentIndex + 1)
      else currentIndex)"
  by pat_completeness auto
termination
  by (relation "measure (\<lambda>(sortedV, binValue, currentIndex). length sortedV - currentIndex)") auto

text \<open>The \<^verbatim>\<open>for\<close> loop over the boundaries \<open>i = 0, \<dots>, binCount\<close>; the running index is
  carried from one boundary to the next.\<close>

function bins_loop :: "real list \<Rightarrow> real \<Rightarrow> real \<Rightarrow> nat \<Rightarrow> nat \<Rightarrow> nat \<Rightarrow> point list \<Rightarrow> point list" where
  "bins_loop sortedV minV binSize binCount i currentIndex data =
     (if i \<le> binCount then
        (let binValue = minV + real i * binSize;
             currentIndex' = advance_index sortedV binValue currentIndex
         in bins_loop sortedV minV binSize binCount (i + 1) currentIndex'
              (data @ [\<lparr>pt_value = binValue, pt_count = currentIndex'\<rparr>]))
      else data)"
  by pat_completeness auto
termination
  by (relation "measure (\<lambda>(sortedV, minV, binSize, binCount, i, currentIndex, data). Suc binCount - i)") auto

text \<open>
  The whole computation.  \<^verbatim>\<open>[...values].sort((a, b) => a - b)\<close> sorts a copy in
  ascending order; \<^verbatim>\<open>forEach\<close> visits the elements with their indices.

  In the binned regime \<open>binSize\<close> and the boundaries \<open>minV + i * binSize\<close> are exact
  reals here.  The code rounds each of them to a double, and a rounded boundary can
  fall just below a value that the exact boundary reaches: the counts of this
  definition are those of the code only where no boundary rounds across a value.
  The computation with its roundings written out is \<open>cumulativeDistribution_fl\<close>,
  below, and the two agree over exact arithmetic.
\<close>

definition cumulativeDistribution :: "real list \<Rightarrow> distribution" where
  "cumulativeDistribution values =
     (if length values = 0 then
        \<lparr>chartData = [], minValue = 0, maxValue = 0, sortedValues = []\<rparr>
      else
        (let sortedV = sort values;
             minV = sortedV ! 0;
             maxV = sortedV ! (length sortedV - 1)
         in if minV = maxV then
              \<lparr>chartData = [\<lparr>pt_value = minV, pt_count = 0\<rparr>,
                            \<lparr>pt_value = minV, pt_count = length sortedV\<rparr>],
               minValue = minV, maxValue = minV, sortedValues = sortedV\<rparr>
            else
              (let data =
                 (if length sortedV \<le> 50 then
                    map (\<lambda>(index, v). \<lparr>pt_value = v, pt_count = index + 1\<rparr>) (enumerate 0 sortedV)
                  else
                    (let binCount = min 100 (length sortedV);
                         binSize = (maxV - minV) / real binCount
                     in bins_loop sortedV minV binSize binCount 0 0 []))
               in \<lparr>chartData = data, minValue = minV, maxValue = maxV, sortedValues = sortedV\<rparr>)))"

section \<open>The pointer-move handler of the component\<close>

text \<open>
  The fraction computed by \<^verbatim>\<open>handleMouseMove\<close>:
  \<^verbatim>\<open>Math.max(0, Math.min(1, x / rect.width || 1))\<close> with \<^verbatim>\<open>x = e.clientX - rect.left\<close>.
  Division binds tighter than \<^verbatim>\<open>||\<close>, so the fallback \<open>1\<close> replaces a falsy
  quotient, not a falsy width.
\<close>

definition handleMouseMove_percentage :: "real \<Rightarrow> real \<Rightarrow> real \<Rightarrow> jsnum" where
  "handleMouseMove_percentage clientX rect_left rect_width =
     (let x = clientX - rect_left
      in js_max (Fin 0) (js_min (Fin 1) (js_or (js_div x rect_width) (Fin 1))))"

text \<open>The threshold that \<^verbatim>\<open>handleMouseMove\<close> interpolates from the fraction.\<close>

definition handleMouseMove_newThreshold :: "real \<Rightarrow> real \<Rightarrow> bool \<Rightarrow> jsnum \<Rightarrow> jsnum" where
  "handleMouseMove_newThreshold minV maxV logScale percentage =
     (if logScale \<and> minV > 0 then
        (let logMin = js_log minV; logMax = js_log maxV
         in js_exp (js_add logMin (js_mul percentage (js_sub logMax logMin))))
      else js_add (Fin minV) (js_mul percentage (Fin (maxV - minV))))"

section \<open>The rounding of double arithmetic\<close>

text \<open>
  An arithmetic operation of the code returns the double nearest to the exact result,
  or an infinity.  Where a claim depends on that, the rounding is a parameter \<open>fl\<close> of
  the model: \<open>fl x\<close> is the number that an operation with the exact result \<open>x\<close> returns.
  \<open>Fin\<close> is exact arithmetic and \<open>fl64\<close>, below, is the rounding of IEEE 754 doubles.
  \<open>js_round\<close> rounds the result of an operation on numbers that may be infinite or NaN.
\<close>

definition js_round :: "(real \<Rightarrow> jsnum) \<Rightarrow> jsnum \<Rightarrow> jsnum" where
  "js_round fl a = (case a of Fin r \<Rightarrow> fl r | _ \<Rightarrow> a)"

text \<open>\<^verbatim>\<open>a / b\<close> with a finite divisor, and \<^verbatim>\<open>a <= b\<close>.\<close>

fun js_quot :: "jsnum \<Rightarrow> real \<Rightarrow> jsnum" where
  "js_quot (Fin a) b = js_div a b"
| "js_quot NaN b = NaN"
| "js_quot a b = (if b < 0 then js_neg a else a)"

fun js_leq :: "jsnum \<Rightarrow> jsnum \<Rightarrow> bool" where
  "js_leq NaN b = False"
| "js_leq a NaN = False"
| "js_leq NInf b = True"
| "js_leq a PInf = True"
| "js_leq PInf b = False"
| "js_leq a NInf = False"
| "js_leq (Fin a) (Fin b) = (a \<le> b)"

text \<open>
  Round to nearest, ties to even, on 53 bits: the exponent is that of the number, not
  below \<open>-1022\<close> (subnormal numbers share the last exponent), the result is the nearest
  multiple of the unit in the last place, and a result of magnitude \<open>2^1024\<close> is an
  infinity.
\<close>

definition round_even :: "real \<Rightarrow> int" where
  "round_even q =
     (if q - of_int \<lfloor>q\<rfloor> < 1 / 2 then \<lfloor>q\<rfloor>
      else if 1 / 2 < q - of_int \<lfloor>q\<rfloor> then \<lfloor>q\<rfloor> + 1
      else if even \<lfloor>q\<rfloor> then \<lfloor>q\<rfloor> else \<lfloor>q\<rfloor> + 1)"

definition fl64_exponent :: "real \<Rightarrow> int" where
  "fl64_exponent x = max \<lfloor>log 2 \<bar>x\<bar>\<rfloor> (- 1022)"

definition fl64_ulp :: "real \<Rightarrow> real" where
  "fl64_ulp x = 2 powr of_int (fl64_exponent x - 52)"

definition fl64_value :: "real \<Rightarrow> real" where
  "fl64_value x = of_int (round_even (x / fl64_ulp x)) * fl64_ulp x"

definition fl64 :: "real \<Rightarrow> jsnum" where
  "fl64 x =
     (if x = 0 then Fin 0
      else if 2 ^ 1024 \<le> \<bar>fl64_value x\<bar> then (if 0 < x then PInf else NInf)
      else Fin (fl64_value x))"

section \<open>The scale mapping on rounded arithmetic\<close>

text \<open>\<^verbatim>\<open>a / b\<close> on numbers that may be infinite or NaN: a finite number over an infinity
  is 0, an infinity over an infinity is NaN.\<close>

fun js_divide :: "jsnum \<Rightarrow> jsnum \<Rightarrow> jsnum" where
  "js_divide a (Fin b) = js_quot a b"
| "js_divide NaN b = NaN"
| "js_divide a NaN = NaN"
| "js_divide (Fin a) b = Fin 0"
| "js_divide a b = NaN"

text \<open>
  \<^verbatim>\<open>thresholdToPercentage\<close> with the rounding \<open>fl\<close> of every operation written out;
  \<^verbatim>\<open>Math.log\<close> is taken to return the rounded logarithm.
\<close>

definition thresholdToPercentage_fl :: "(real \<Rightarrow> jsnum) \<Rightarrow> real \<Rightarrow> real \<Rightarrow> real \<Rightarrow> bool \<Rightarrow> jsnum" where
  "thresholdToPercentage_fl fl minV maxV t logScale =
     (if maxV = minV then Fin 0
      else if logScale \<and> minV > 0 \<and> maxV > 0 \<and> t > 0 then
        (let logMin = js_round fl (js_log minV);
             logMax = js_round fl (js_log maxV);
             logT = js_round fl (js_log t)
         in js_round fl (js_mul (js_round fl (js_divide (js_round fl (js_sub logT logMin))
                                                (js_round fl (js_sub logMax logMin))))
                           (Fin 100)))
      else js_round fl (js_mul (js_round fl (js_divide (js_round fl (js_sub (Fin t) (Fin minV)))
                                               (js_round fl (js_sub (Fin maxV) (Fin minV)))))
                          (Fin 100)))"

section \<open>The distribution of the component on rounded arithmetic\<close>

text \<open>
  The same computation with the rounding \<open>fl\<close> of every operation of the binned regime
  written out: \<^verbatim>\<open>max - min\<close>, the division by \<^verbatim>\<open>binCount\<close>, \<^verbatim>\<open>i * binSize\<close> and the
  sum with \<^verbatim>\<open>min\<close>.  A boundary can then be an infinity or NaN (when \<^verbatim>\<open>max - min\<close>
  overflows), so the value of a point is a \<open>jsnum\<close>, and the comparison of the inner
  loop is that of numbers, false on NaN.  The other regimes do no arithmetic.
\<close>

record fpoint =
  fp_value :: jsnum
  fp_count :: nat

record fdistribution =
  fchartData :: "fpoint list"
  fminValue :: real
  fmaxValue :: real
  fsortedValues :: "real list"

function advance_index_fl :: "real list \<Rightarrow> jsnum \<Rightarrow> nat \<Rightarrow> nat" where
  "advance_index_fl sortedV binValue currentIndex =
     (if currentIndex < length sortedV \<and> js_leq (Fin (sortedV ! currentIndex)) binValue
      then advance_index_fl sortedV binValue (currentIndex + 1)
      else currentIndex)"
  by pat_completeness auto
termination
  by (relation "measure (\<lambda>(sortedV, binValue, currentIndex). length sortedV - currentIndex)") auto

function bins_loop_fl ::
  "(real \<Rightarrow> jsnum) \<Rightarrow> real list \<Rightarrow> real \<Rightarrow> jsnum \<Rightarrow> nat \<Rightarrow> nat \<Rightarrow> nat \<Rightarrow> fpoint list \<Rightarrow> fpoint list" where
  "bins_loop_fl fl sortedV minV binSize binCount i currentIndex data =
     (if i \<le> binCount then
        (let binValue = js_round fl (js_add (Fin minV) (js_round fl (js_mul (Fin (real i)) binSize)));
             currentIndex' = advance_index_fl sortedV binValue currentIndex
         in bins_loop_fl fl sortedV minV binSize binCount (i + 1) currentIndex'
              (data @ [\<lparr>fp_value = binValue, fp_count = currentIndex'\<rparr>]))
      else data)"
  by pat_completeness auto
termination
  by (relation "measure (\<lambda>(fl, sortedV, minV, binSize, binCount, i, currentIndex, data). Suc binCount - i)") auto

definition cumulativeDistribution_fl :: "(real \<Rightarrow> jsnum) \<Rightarrow> real list \<Rightarrow> fdistribution" where
  "cumulativeDistribution_fl fl values =
     (if length values = 0 then
        \<lparr>fchartData = [], fminValue = 0, fmaxValue = 0, fsortedValues = []\<rparr>
      else
        (let sortedV = sort values;
             minV = sortedV ! 0;
             maxV = sortedV ! (length sortedV - 1)
         in if minV = maxV then
              \<lparr>fchartData = [\<lparr>fp_value = Fin minV, fp_count = 0\<rparr>,
                             \<lparr>fp_value = Fin minV, fp_count = length sortedV\<rparr>],
               fminValue = minV, fmaxValue = minV, fsortedValues = sortedV\<rparr>
            else
              (let data =
                 (if length sortedV \<le> 50 then
                    map (\<lambda>(index, v). \<lparr>fp_value = Fin v, fp_count = index + 1\<rparr>) (enumerate 0 sortedV)
                  else
                    (let binCount = min 100 (length sortedV);
                         binSize = js_round fl (js_quot (js_round fl (js_sub (Fin maxV) (Fin minV)))
                                                  (real binCount))
                     in bins_loop_fl fl sortedV minV binSize binCount 0 0 []))
               in \<lparr>fchartData = data, fminValue = minV, fmaxValue = maxV, fsortedValues = sortedV\<rparr>)))"

section \<open>Properties of the binary searches\<close>

lemmas lowerBound_loop_unfold = lowerBound_loop.simps
lemmas upperBound_loop_unfold = upperBound_loop.simps
declare lowerBound_loop.simps [simp del]
declare upperBound_loop.simps [simp del]

lemma lowerBound_loop_range:
  "l \<le> r \<Longrightarrow> l \<le> lowerBound_loop arr x l r \<and> lowerBound_loop arr x l r \<le> r"
proof (induction "r - l" arbitrary: l r rule: less_induct)
  case less
  show ?case
  proof (cases "l < r")
    case False
    then have "lowerBound_loop arr x l r = l"
      by (subst lowerBound_loop_unfold) simp
    then show ?thesis
      using less.prems by simp
  next
    case True
    let ?m = "(l + r) div 2"
    from True have lm: "l \<le> ?m" and mr: "?m < r" by simp_all
    have up: "?m + 1 \<le> lowerBound_loop arr x (?m + 1) r \<and> lowerBound_loop arr x (?m + 1) r \<le> r"
      using less.hyps [of r "?m + 1"] True by simp
    have down: "l \<le> lowerBound_loop arr x l ?m \<and> lowerBound_loop arr x l ?m \<le> ?m"
      using less.hyps [of ?m l] True by simp
    show ?thesis
      using True lm mr up down
      by (simp add: lowerBound_loop_unfold [of arr x l r] Let_def)
  qed
qed

lemma upperBound_loop_range:
  "l \<le> r \<Longrightarrow> l \<le> upperBound_loop arr x l r \<and> upperBound_loop arr x l r \<le> r"
proof (induction "r - l" arbitrary: l r rule: less_induct)
  case less
  show ?case
  proof (cases "l < r")
    case False
    then have "upperBound_loop arr x l r = l"
      by (subst upperBound_loop_unfold) simp
    then show ?thesis
      using less.prems by simp
  next
    case True
    let ?m = "(l + r) div 2"
    from True have lm: "l \<le> ?m" and mr: "?m < r" by simp_all
    have up: "?m + 1 \<le> upperBound_loop arr x (?m + 1) r \<and> upperBound_loop arr x (?m + 1) r \<le> r"
      using less.hyps [of r "?m + 1"] True by simp
    have down: "l \<le> upperBound_loop arr x l ?m \<and> upperBound_loop arr x l ?m \<le> ?m"
      using less.hyps [of ?m l] True by simp
    show ?thesis
      using True lm mr up down
      by (simp add: upperBound_loop_unfold [of arr x l r] Let_def)
  qed
qed

text \<open>
  The loop invariant of \<open>lowerBound\<close>: everything left of \<open>l\<close> is below \<open>x\<close>, everything
  from \<open>r\<close> on is at least \<open>x\<close>.  The result keeps both halves of the invariant.
\<close>

lemma lowerBound_loop_inv:
  assumes "sorted arr" and "l \<le> r" and "r \<le> length arr"
    and "\<forall>i<l. arr ! i < x"
    and "\<forall>i. r \<le> i \<and> i < length arr \<longrightarrow> x \<le> arr ! i"
  shows "(\<forall>i<lowerBound_loop arr x l r. arr ! i < x) \<and>
         (\<forall>i. lowerBound_loop arr x l r \<le> i \<and> i < length arr \<longrightarrow> x \<le> arr ! i)"
  using assms
proof (induction "r - l" arbitrary: l r rule: less_induct)
  case less
  show ?case
  proof (cases "l < r")
    case False
    then have "lowerBound_loop arr x l r = l"
      by (subst lowerBound_loop_unfold) simp
    then show ?thesis
      using less.prems False by auto
  next
    case True
    let ?m = "(l + r) div 2"
    from True have lm: "l \<le> ?m" and mr: "?m < r" by simp_all
    with less.prems have mlen: "?m < length arr" by simp
    show ?thesis
    proof (cases "arr ! ?m < x")
      case below: True
      have left: "\<forall>i<?m + 1. arr ! i < x"
      proof (intro allI impI)
        fix i assume "i < ?m + 1"
        then have "i \<le> ?m" by simp
        with \<open>sorted arr\<close> mlen have "arr ! i \<le> arr ! ?m"
          by (simp add: sorted_nth_mono)
        with below show "arr ! i < x" by simp
      qed
      have "(\<forall>i<lowerBound_loop arr x (?m + 1) r. arr ! i < x) \<and>
            (\<forall>i. lowerBound_loop arr x (?m + 1) r \<le> i \<and> i < length arr \<longrightarrow> x \<le> arr ! i)"
        using less.hyps [of r "?m + 1"] True mr left less.prems by simp
      then show ?thesis
        using True below mlen by (simp add: lowerBound_loop_unfold [of arr x l r] Let_def)
    next
      case above: False
      have right: "\<forall>i. ?m \<le> i \<and> i < length arr \<longrightarrow> x \<le> arr ! i"
      proof (intro allI impI)
        fix i assume "?m \<le> i \<and> i < length arr"
        with \<open>sorted arr\<close> have "arr ! ?m \<le> arr ! i"
          by (simp add: sorted_nth_mono)
        with above show "x \<le> arr ! i" by simp
      qed
      have "(\<forall>i<lowerBound_loop arr x l ?m. arr ! i < x) \<and>
            (\<forall>i. lowerBound_loop arr x l ?m \<le> i \<and> i < length arr \<longrightarrow> x \<le> arr ! i)"
        using less.hyps [of ?m l] True lm mlen right less.prems by simp
      then show ?thesis
        using True above by (simp add: lowerBound_loop_unfold [of arr x l r] Let_def)
    qed
  qed
qed

text \<open>
  For \<open>upperBound\<close> the invariant is the same with the comparisons shifted: at most \<open>x\<close> on
  the left, above \<open>x\<close> from \<open>r\<close> on.
\<close>

lemma upperBound_loop_inv:
  assumes "sorted arr" and "l \<le> r" and "r \<le> length arr"
    and "\<forall>i<l. arr ! i \<le> x"
    and "\<forall>i. r \<le> i \<and> i < length arr \<longrightarrow> x < arr ! i"
  shows "(\<forall>i<upperBound_loop arr x l r. arr ! i \<le> x) \<and>
         (\<forall>i. upperBound_loop arr x l r \<le> i \<and> i < length arr \<longrightarrow> x < arr ! i)"
  using assms
proof (induction "r - l" arbitrary: l r rule: less_induct)
  case less
  show ?case
  proof (cases "l < r")
    case False
    then have "upperBound_loop arr x l r = l"
      by (subst upperBound_loop_unfold) simp
    then show ?thesis
      using less.prems False by auto
  next
    case True
    let ?m = "(l + r) div 2"
    from True have lm: "l \<le> ?m" and mr: "?m < r" by simp_all
    with less.prems have mlen: "?m < length arr" by simp
    show ?thesis
    proof (cases "arr ! ?m \<le> x")
      case below: True
      have left: "\<forall>i<?m + 1. arr ! i \<le> x"
      proof (intro allI impI)
        fix i assume "i < ?m + 1"
        then have "i \<le> ?m" by simp
        with \<open>sorted arr\<close> mlen have "arr ! i \<le> arr ! ?m"
          by (simp add: sorted_nth_mono)
        with below show "arr ! i \<le> x" by simp
      qed
      have "(\<forall>i<upperBound_loop arr x (?m + 1) r. arr ! i \<le> x) \<and>
            (\<forall>i. upperBound_loop arr x (?m + 1) r \<le> i \<and> i < length arr \<longrightarrow> x < arr ! i)"
        using less.hyps [of r "?m + 1"] True mr left less.prems by simp
      then show ?thesis
        using True below mlen by (simp add: upperBound_loop_unfold [of arr x l r] Let_def)
    next
      case above: False
      have right: "\<forall>i. ?m \<le> i \<and> i < length arr \<longrightarrow> x < arr ! i"
      proof (intro allI impI)
        fix i assume "?m \<le> i \<and> i < length arr"
        with \<open>sorted arr\<close> have "arr ! ?m \<le> arr ! i"
          by (simp add: sorted_nth_mono)
        with above show "x < arr ! i" by simp
      qed
      have "(\<forall>i<upperBound_loop arr x l ?m. arr ! i \<le> x) \<and>
            (\<forall>i. upperBound_loop arr x l ?m \<le> i \<and> i < length arr \<longrightarrow> x < arr ! i)"
        using less.hyps [of ?m l] True lm mlen right less.prems by simp
      then show ?thesis
        using True above by (simp add: upperBound_loop_unfold [of arr x l r] Let_def)
    qed
  qed
qed

text \<open>An index that splits a list by a predicate is the number of elements satisfying it.\<close>

lemma split_index_count:
  assumes "k \<le> length xs"
    and "\<forall>i<k. P (xs ! i)"
    and "\<forall>i. k \<le> i \<and> i < length xs \<longrightarrow> \<not> P (xs ! i)"
  shows "length (filter P xs) = k"
proof -
  have fore: "filter P (take k xs) = take k xs"
    using assms(1,2) by (auto simp: filter_id_conv in_set_conv_nth)
  have rear: "filter P (drop k xs) = []"
    using assms(1,3) by (auto simp: filter_empty_conv in_set_conv_nth)
  have "filter P xs = filter P (take k xs) @ filter P (drop k xs)"
    by (metis append_take_drop_id filter_append)
  with fore rear assms(1) show ?thesis by simp
qed

lemma lowerBound_le_length: "lowerBound arr x \<le> length arr"
  unfolding lowerBound_def using lowerBound_loop_range [of 0 "length arr" arr x] by simp

lemma upperBound_le_length: "upperBound arr x \<le> length arr"
  unfolding upperBound_def using upperBound_loop_range [of 0 "length arr" arr x] by simp

lemma lowerBound_split:
  assumes "sorted arr"
  shows "(\<forall>i<lowerBound arr x. arr ! i < x) \<and>
         (\<forall>i. lowerBound arr x \<le> i \<and> i < length arr \<longrightarrow> x \<le> arr ! i)"
  unfolding lowerBound_def
  using lowerBound_loop_inv [OF assms, of 0 "length arr" x] by simp

lemma upperBound_split:
  assumes "sorted arr"
  shows "(\<forall>i<upperBound arr x. arr ! i \<le> x) \<and>
         (\<forall>i. upperBound arr x \<le> i \<and> i < length arr \<longrightarrow> x < arr ! i)"
  unfolding upperBound_def
  using upperBound_loop_inv [OF assms, of 0 "length arr" x] by simp

lemma lowerBound_count:
  assumes "sorted arr"
  shows "lowerBound arr x = length (filter (\<lambda>y. y < x) arr)"
  using split_index_count [of "lowerBound arr x" arr "\<lambda>y. y < x"]
    lowerBound_le_length [of arr x] lowerBound_split [OF assms, of x]
  by (simp add: not_less)

lemma upperBound_count:
  assumes "sorted arr"
  shows "upperBound arr x = length (filter (\<lambda>y. y \<le> x) arr)"
  using split_index_count [of "upperBound arr x" arr "\<lambda>y. y \<le> x"]
    upperBound_le_length [of arr x] upperBound_split [OF assms, of x]
  by (simp add: not_le)

lemma least_split_index:
  fixes k :: nat
  assumes "k < n" and "Q k" and "\<forall>i<k. \<not> Q i"
  shows "(LEAST i. i < n \<and> Q i) = k"
proof (rule Least_equality)
  show "k < n \<and> Q k" using assms by simp
next
  fix y assume "y < n \<and> Q y"
  with assms(3) show "k \<le> y" by (meson not_le)
qed

section \<open>Claims about the threshold counter\<close>

text \<open>
  C2.  On an array sorted in ascending order, \<open>lowerBound\<close> is the smallest index whose
  element is at least \<open>t\<close> (the length of the array when there is none), which is the number
  of elements below \<open>t\<close>; \<open>upperBound\<close> is the smallest index whose element is above
  \<open>t\<close>, which is the number of elements that are at most \<open>t\<close>.
\<close>

theorem bounds_smallest_index:
  assumes "sorted s"
  shows "lowerBound s t =
           (if \<exists>i<length s. t \<le> s ! i then (LEAST i. i < length s \<and> t \<le> s ! i)
            else length s)
       \<and> lowerBound s t = length (filter (\<lambda>y. y < t) s)
       \<and> upperBound s t =
           (if \<exists>i<length s. t < s ! i then (LEAST i. i < length s \<and> t < s ! i)
            else length s)
       \<and> upperBound s t = length (filter (\<lambda>y. y \<le> t) s)"
proof -
  have lo: "lowerBound s t =
           (if \<exists>i<length s. t \<le> s ! i then (LEAST i. i < length s \<and> t \<le> s ! i)
            else length s)"
  proof (cases "lowerBound s t < length s")
    case True
    with lowerBound_split [OF assms, of t] have here: "t \<le> s ! lowerBound s t" by simp
    have "(LEAST i. i < length s \<and> t \<le> s ! i) = lowerBound s t"
      using True here lowerBound_split [OF assms, of t]
      by (intro least_split_index) (simp_all add: not_le)
    with True here show ?thesis by auto
  next
    case False
    with lowerBound_le_length [of s t] have full: "lowerBound s t = length s" by simp
    with lowerBound_split [OF assms, of t] have "\<not> (\<exists>i<length s. t \<le> s ! i)"
      by (auto simp: not_le)
    with full show ?thesis by auto
  qed
  have up: "upperBound s t =
           (if \<exists>i<length s. t < s ! i then (LEAST i. i < length s \<and> t < s ! i)
            else length s)"
  proof (cases "upperBound s t < length s")
    case True
    with upperBound_split [OF assms, of t] have here: "t < s ! upperBound s t" by simp
    have "(LEAST i. i < length s \<and> t < s ! i) = upperBound s t"
      using True here upperBound_split [OF assms, of t]
      by (intro least_split_index) (simp_all add: not_less)
    with True here show ?thesis by auto
  next
    case False
    with upperBound_le_length [of s t] have full: "upperBound s t = length s" by simp
    with upperBound_split [OF assms, of t] have "\<not> (\<exists>i<length s. t < s ! i)"
      by (auto simp: not_less)
    with full show ?thesis by auto
  qed
  from lo up lowerBound_count [OF assms, of t] upperBound_count [OF assms, of t]
  show ?thesis by blast
qed

theorem bounds_smallest_index_witness:
  "sorted [1, 2, 2, 5, 9 :: real] \<and> lowerBound [1, 2, 2, 5, 9] 2 = 1 \<and> upperBound [1, 2, 2, 5, 9] 2 = 3"
proof -
  have h: "sorted [1, 2, 2, 5, 9 :: real]" by simp
  from bounds_smallest_index [OF h, of 2]
  have "lowerBound [1, 2, 2, 5, 9] 2 = length (filter (\<lambda>y. y < 2) [1, 2, 2, 5, 9 :: real])"
    and "upperBound [1, 2, 2, 5, 9] 2 = length (filter (\<lambda>y. y \<le> 2) [1, 2, 2, 5, 9 :: real])"
    by blast+
  with h show ?thesis by simp
qed

text \<open>
  C1.  On an array sorted in ascending order the counter returns the number of elements
  below \<open>t\<close> (\<open>lt\<close>), at most \<open>t\<close> (\<open>lte\<close>), above \<open>t\<close> (\<open>gt\<close>) and at least \<open>t\<close>
  (\<open>gte\<close>); it returns 0 on the empty array, and a mode that is none of the four is
  counted as \<open>lte\<close>.
\<close>

theorem getCountAtThreshold_counts:
  assumes "sorted s"
  shows "getCountAtThreshold ''lt'' s t = length (filter (\<lambda>x. x < t) s)
       \<and> getCountAtThreshold ''lte'' s t = length (filter (\<lambda>x. x \<le> t) s)
       \<and> getCountAtThreshold ''gt'' s t = length (filter (\<lambda>x. x > t) s)
       \<and> getCountAtThreshold ''gte'' s t = length (filter (\<lambda>x. x \<ge> t) s)
       \<and> getCountAtThreshold mode [] t = 0
       \<and> (mode \<notin> {''lt'', ''lte'', ''gt'', ''gte''} \<longrightarrow>
            getCountAtThreshold mode s t = getCountAtThreshold ''lte'' s t)"
proof -
  have lt: "getCountAtThreshold ''lt'' s t = length (filter (\<lambda>x. x < t) s)"
    by (simp add: getCountAtThreshold_def lowerBound_count [OF assms])
  have lte: "getCountAtThreshold ''lte'' s t = length (filter (\<lambda>x. x \<le> t) s)"
    by (simp add: getCountAtThreshold_def upperBound_count [OF assms])
  have "length (filter (\<lambda>x. x \<le> t) s) + length (filter (\<lambda>x. \<not> x \<le> t) s) = length s"
    by (rule sum_length_filter_compl)
  then have gt: "getCountAtThreshold ''gt'' s t = length (filter (\<lambda>x. x > t) s)"
    by (auto simp add: getCountAtThreshold_def upperBound_count [OF assms] Let_def not_le)
  have "length (filter (\<lambda>x. x < t) s) + length (filter (\<lambda>x. \<not> x < t) s) = length s"
    by (rule sum_length_filter_compl)
  then have gte: "getCountAtThreshold ''gte'' s t = length (filter (\<lambda>x. x \<ge> t) s)"
    by (auto simp add: getCountAtThreshold_def lowerBound_count [OF assms] Let_def not_less)
  have empty: "getCountAtThreshold mode [] t = 0"
    by (simp add: getCountAtThreshold_def)
  have other: "mode \<notin> {''lt'', ''lte'', ''gt'', ''gte''} \<longrightarrow>
            getCountAtThreshold mode s t = getCountAtThreshold ''lte'' s t"
    by (simp add: getCountAtThreshold_def)
  from lt lte gt gte empty other show ?thesis by blast
qed

theorem getCountAtThreshold_counts_witness:
  "sorted [1, 2, 2, 5, 9 :: real] \<and> ''eq'' \<notin> {''lt'', ''lte'', ''gt'', ''gte''}
   \<and> getCountAtThreshold ''lt'' [1, 2, 2, 5, 9] 2 = 1
   \<and> getCountAtThreshold ''lte'' [1, 2, 2, 5, 9] 2 = 3
   \<and> getCountAtThreshold ''gt'' [1, 2, 2, 5, 9] 2 = 2
   \<and> getCountAtThreshold ''gte'' [1, 2, 2, 5, 9] 2 = 4
   \<and> getCountAtThreshold ''eq'' [1, 2, 2, 5, 9] 2 = 3"
proof -
  have h: "sorted [1, 2, 2, 5, 9 :: real]" by simp
  have m: "''eq'' \<notin> {''lt'', ''lte'', ''gt'', ''gte''}" by simp
  from getCountAtThreshold_counts [OF h, of 2 "''eq''"] h m show ?thesis by simp
qed

text \<open>
  C3.  The counts of complementary modes add up to the length of the array: \<open>lt\<close> with
  \<open>gte\<close>, and \<open>lte\<close> with \<open>gt\<close>.  The array need not even be sorted for this.
\<close>

theorem complementary_counts:
  "getCountAtThreshold ''lt'' s t + getCountAtThreshold ''gte'' s t = length s
   \<and> getCountAtThreshold ''lte'' s t + getCountAtThreshold ''gt'' s t = length s"
  using lowerBound_le_length [of s t] upperBound_le_length [of s t]
  by (auto simp add: getCountAtThreshold_def Let_def)

section \<open>The rounding of doubles is monotone\<close>

lemma round_even_bounds: "\<lfloor>q\<rfloor> \<le> round_even q \<and> round_even q \<le> \<lfloor>q\<rfloor> + 1"
  by (simp add: round_even_def)

lemma round_even_of_int [simp]: "round_even (of_int k) = k"
  by (simp add: round_even_def)

lemma round_even_mono:
  assumes "q \<le> q'"
  shows "round_even q \<le> round_even q'"
proof (cases "\<lfloor>q\<rfloor> = \<lfloor>q'\<rfloor>")
  case True
  with assms show ?thesis by (auto simp add: round_even_def)
next
  case False
  with assms have "\<lfloor>q\<rfloor> < \<lfloor>q'\<rfloor>" by (simp add: floor_mono le_neq_trans)
  with round_even_bounds [of q] round_even_bounds [of q'] show ?thesis by linarith
qed



lemma fl64_ulp_pos: "0 < fl64_ulp x"
  by (simp add: fl64_ulp_def)


lemma fl64_exponent_lower:
  assumes "0 < x" and "- 1022 < fl64_exponent x"
  shows "2 powr of_int (fl64_exponent x) \<le> x"
proof -
  from assms have "fl64_exponent x = \<lfloor>log 2 x\<rfloor>"
    by (simp add: fl64_exponent_def max_def split: if_splits)
  with assms(1) show ?thesis
    using floor_log_eq_powr_iff [of x 2 "\<lfloor>log 2 x\<rfloor>"] by simp
qed

lemma ulp_times: "2 ^ 52 * fl64_ulp x = 2 powr of_int (fl64_exponent x)"
  and ulp_times': "2 ^ 53 * fl64_ulp x = 2 powr of_int (fl64_exponent x + 1)"
proof -
  have "(2::real) ^ 52 = 2 powr 52" and "(2::real) ^ 53 = 2 powr 53" by simp_all
  then show "2 ^ 52 * fl64_ulp x = 2 powr of_int (fl64_exponent x)"
    and "2 ^ 53 * fl64_ulp x = 2 powr of_int (fl64_exponent x + 1)"
    unfolding fl64_ulp_def by (simp_all only: powr_add [symmetric]) (simp_all add: algebra_simps)
qed


lemma fl64_value_lower:
  assumes "0 < x" and "- 1022 < fl64_exponent x"
  shows "2 powr of_int (fl64_exponent x) \<le> fl64_value x"
proof -
  let ?u = "fl64_ulp x"
  have u: "0 < ?u" by (rule fl64_ulp_pos)
  from fl64_exponent_lower [OF assms] have "2 ^ 52 * ?u \<le> x" by (simp only: ulp_times)
  with u have "of_int (2 ^ 52) \<le> x / ?u" by (simp add: pos_le_divide_eq)
  then have "round_even (of_int (2 ^ 52)) \<le> round_even (x / ?u)" by (rule round_even_mono)
  then have "2 ^ 52 \<le> round_even (x / ?u)" by (simp only: round_even_of_int)
  then have "(2 ^ 52 :: real) \<le> of_int (round_even (x / ?u))"
    by (metis of_int_le_iff of_int_numeral of_int_power)
  with u have "2 ^ 52 * ?u \<le> fl64_value x"
    unfolding fl64_value_def by (intro mult_right_mono) simp_all
  then show ?thesis by (simp only: ulp_times)
qed










text \<open>A power of two from \<open>2^1024\<close> on is rounded to infinity.\<close>

lemma fl64_exponent_power: "fl64_exponent (2 ^ n) = max (int n) (- 1022)"
  by (simp add: fl64_exponent_def log_nat_power)

lemma fl64_power_overflow:
  assumes "1024 \<le> n"
  shows "fl64 (2 ^ n) = PInf"
proof -
  from assms have e: "fl64_exponent (2 ^ n) = int n"
    unfolding fl64_exponent_power by simp
  have "2 powr of_int (fl64_exponent (2 ^ n)) \<le> fl64_value (2 ^ n)"
    using assms by (intro fl64_value_lower) (simp_all add: e)
  then have low: "(2::real) ^ n \<le> fl64_value (2 ^ n)"
    unfolding e by (simp add: powr_realpow)
  from assms have "(2::real) ^ 1024 \<le> 2 ^ n" by (intro power_increasing) simp_all
  with low have "(2::real) ^ 1024 \<le> \<bar>fl64_value (2 ^ n)\<bar>" by linarith
  moreover have "(0::real) < 2 ^ n" and "(2::real) ^ n \<noteq> 0" by simp_all
  ultimately show ?thesis unfolding fl64_def by (simp only: if_True if_False)
qed

section \<open>Claims about the scale mapping\<close>

lemma thresholdToPercentage_degenerate:
  "thresholdToPercentage minV minV t logScale = 0"
  by (simp add: thresholdToPercentage_def)

lemma thresholdToPercentage_linear:
  assumes "maxV \<noteq> minV" and "\<not> (logScale \<and> 0 < minV \<and> 0 < maxV \<and> 0 < t)"
  shows "thresholdToPercentage minV maxV t logScale = ((t - minV) / (maxV - minV)) * 100"
  using assms by (auto simp add: thresholdToPercentage_def)

lemma thresholdToPercentage_log:
  assumes "maxV \<noteq> minV" and "logScale" and "0 < minV" and "0 < maxV" and "0 < t"
  shows "thresholdToPercentage minV maxV t logScale
         = ((ln t - ln minV) / (ln maxV - ln minV)) * 100"
  using assms by (simp add: thresholdToPercentage_def Let_def)

lemma thresholdToPercentage_between:
  assumes "(minV \<le> v \<and> v \<le> maxV) \<or> (maxV \<le> v \<and> v \<le> minV)"
  shows "0 \<le> thresholdToPercentage minV maxV v logScale
       \<and> thresholdToPercentage minV maxV v logScale \<le> 100"
proof (cases "maxV = minV")
  case True
  then show ?thesis by (simp add: thresholdToPercentage_degenerate)
next
  case ne: False
  show ?thesis
  proof (cases "logScale \<and> 0 < minV \<and> 0 < maxV \<and> 0 < v")
    case False
    define q where "q = (v - minV) / (maxV - minV)"
    have eq: "thresholdToPercentage minV maxV v logScale = q * 100"
      unfolding q_def by (rule thresholdToPercentage_linear [OF ne False])
    have "0 \<le> q \<and> q \<le> 1"
      unfolding q_def using assms ne
      by (auto simp: divide_le_eq le_divide_eq zero_le_divide_iff)
    with eq show ?thesis by simp
  next
    case True
    define q where "q = (ln v - ln minV) / (ln maxV - ln minV)"
    have eq: "thresholdToPercentage minV maxV v logScale = q * 100"
      unfolding q_def using True ne by (intro thresholdToPercentage_log) simp_all
    have "0 \<le> q \<and> q \<le> 1"
      unfolding q_def using assms ne True
      by (auto simp: divide_le_eq le_divide_eq zero_le_divide_iff)
    with eq show ?thesis by simp
  qed
qed

text \<open>
  Over exact arithmetic the function with its roundings written out is the function
  above.  On doubles it is not always a number of \<open>[0, 100]\<close> for a value between the
  minimum and the maximum: for \<open>min = -2^1023\<close> and \<open>value = max = 2^1023\<close> both
  differences overflow to infinity and their quotient is NaN.
\<close>

lemma thresholdToPercentage_fl_exact:
  "thresholdToPercentage_fl Fin minV maxV t logScale = Fin (thresholdToPercentage minV maxV t logScale)"
  by (simp add: thresholdToPercentage_fl_def thresholdToPercentage_def js_round_def js_sub_def
        js_div_def js_log_def Let_def)

lemma thresholdToPercentage_fl_overflow:
  "thresholdToPercentage_fl fl64 (- (2 ^ 1023)) (2 ^ 1023) (2 ^ 1023) False = NaN"
proof -
  have s: "(2::real) ^ 1023 + 2 ^ 1023 = 2 ^ 1024" by simp
  have ne: "(2::real) ^ 1023 \<noteq> - (2 ^ 1023)" by simp
  have inf: "fl64 (2 ^ 1024) = PInf" by (rule fl64_power_overflow) simp
  show ?thesis
    unfolding thresholdToPercentage_fl_def
    by (simp only: ne if_False simp_thms js_sub_def js_neg.simps js_add.simps minus_minus s
          js_round_def jsnum.case inf js_divide.simps js_mul.simps)
qed

text \<open>
  C5, as stated: the result lies in \<open>[0, 100]\<close> for every minimum, maximum, value and
  flag.  It does not: the function does not clamp, and a value beyond the maximum maps
  beyond 100.
\<close>

theorem thresholdToPercentage_range_counterexample:
  "\<not> (0 \<le> thresholdToPercentage 0 100 150 False \<and> thresholdToPercentage 0 100 150 False \<le> 100)"
  by (simp add: thresholdToPercentage_def)

text \<open>
  C5, amended: over exact real arithmetic, the result is 0 when the maximum equals the
  minimum, it is
  \<open>((value - min) / (max - min)) * 100\<close> in the linear regime and
  \<open>((ln value - ln min) / (ln max - ln min)) * 100\<close> in the logarithmic regime (flag set
  and minimum, maximum and value all positive), and it lies in \<open>[0, 100]\<close> whenever the
  value lies between the minimum and the maximum.  Nothing is said of doubles beyond
  rounding: there an overflow of \<^verbatim>\<open>max - min\<close> or two equal logarithms make the result
  0 or NaN (\<open>thresholdToPercentage_fl_overflow\<close>).
\<close>

theorem thresholdToPercentage_regimes:
  "(maxV = minV \<longrightarrow> thresholdToPercentage minV maxV v logScale = 0)
   \<and> (maxV \<noteq> minV \<and> \<not> (logScale \<and> 0 < minV \<and> 0 < maxV \<and> 0 < v) \<longrightarrow>
        thresholdToPercentage minV maxV v logScale = ((v - minV) / (maxV - minV)) * 100)
   \<and> (maxV \<noteq> minV \<and> logScale \<and> 0 < minV \<and> 0 < maxV \<and> 0 < v \<longrightarrow>
        thresholdToPercentage minV maxV v logScale
        = ((ln v - ln minV) / (ln maxV - ln minV)) * 100)
   \<and> ((minV \<le> v \<and> v \<le> maxV) \<or> (maxV \<le> v \<and> v \<le> minV) \<longrightarrow>
        0 \<le> thresholdToPercentage minV maxV v logScale
        \<and> thresholdToPercentage minV maxV v logScale \<le> 100)"
  using thresholdToPercentage_degenerate [of minV v logScale]
    thresholdToPercentage_linear [of maxV minV logScale v]
    thresholdToPercentage_log [of maxV minV logScale v]
    thresholdToPercentage_between [of minV v maxV logScale]
  by blast

theorem thresholdToPercentage_regimes_witness:
  "thresholdToPercentage 10 10 10 False = 0
   \<and> thresholdToPercentage 0 100 50 False = 50
   \<and> thresholdToPercentage 1 100 100 True = 100
   \<and> 0 \<le> thresholdToPercentage 1 100 10 True \<and> thresholdToPercentage 1 100 10 True \<le> 100"
  using thresholdToPercentage_regimes [where minV = 10 and maxV = 10 and v = 10 and logScale = False]
    thresholdToPercentage_regimes [where minV = 0 and maxV = 100 and v = 50 and logScale = False]
    thresholdToPercentage_regimes [where minV = 1 and maxV = 100 and v = 100 and logScale = True]
    thresholdToPercentage_regimes [where minV = 1 and maxV = 100 and v = 10 and logScale = True]
  by simp

text \<open>
  C10.  With the logarithmic flag set, the logarithmic formula is used only when the
  minimum, the maximum and the threshold are all positive.  In particular, with a
  positive minimum and maximum and a threshold that is not positive, the result is
  that of the linear formula \<open>((t - min) / (max - min)) * 100\<close> (and 0 on the degenerate
  range, which is tested first): it is the result computed without the flag.
\<close>

theorem log_branch_needs_all_positive:
  assumes "\<not> (0 < minV \<and> 0 < maxV \<and> 0 < t)"
  shows "thresholdToPercentage minV maxV t True
           = (if maxV = minV then 0 else ((t - minV) / (maxV - minV)) * 100)
       \<and> thresholdToPercentage minV maxV t True = thresholdToPercentage minV maxV t False"
  using assms by (auto simp add: thresholdToPercentage_def)

theorem log_branch_needs_all_positive_witness:
  "\<not> (0 < (1::real) \<and> 0 < (100::real) \<and> 0 < (- 5 :: real))
   \<and> thresholdToPercentage 1 100 (- 5) True = ((- 5 - 1) / (100 - 1)) * 100
   \<and> thresholdToPercentage 1 100 (- 5) True = thresholdToPercentage 1 100 (- 5) False"
  using log_branch_needs_all_positive [where minV = 1 and maxV = 100 and t = "- 5"]
  by simp

section \<open>Claims about the round trip between value and fraction\<close>

lemma value_roundtrip:
  assumes "minV < maxV" and "logScale \<and> 0 < minV \<longrightarrow> 0 < x"
  shows "handleMouseMove_newThreshold minV maxV logScale
           (Fin (thresholdToPercentage minV maxV x logScale / 100)) = Fin x"
proof (cases "logScale \<and> 0 < minV")
  case False
  define q where "q = (x - minV) / (maxV - minV)"
  from False assms(1) have "thresholdToPercentage minV maxV x logScale = q * 100"
    unfolding q_def by (auto simp add: thresholdToPercentage_def)
  then have frac: "thresholdToPercentage minV maxV x logScale / 100 = q" by simp
  from False have "handleMouseMove_newThreshold minV maxV logScale (Fin q)
      = Fin (minV + q * (maxV - minV))"
    by (auto simp add: handleMouseMove_newThreshold_def)
  moreover have "minV + q * (maxV - minV) = x"
    unfolding q_def using assms(1) by simp
  ultimately show ?thesis using frac by simp
next
  case True
  with assms have pos: "0 < minV" "0 < maxV" "0 < x" by auto
  with assms have ne: "ln maxV - ln minV \<noteq> 0" by simp
  define q where "q = (ln x - ln minV) / (ln maxV - ln minV)"
  from True pos assms(1) have "thresholdToPercentage minV maxV x logScale = q * 100"
    unfolding q_def by (simp add: thresholdToPercentage_def Let_def)
  then have frac: "thresholdToPercentage minV maxV x logScale / 100 = q" by simp
  from True pos have "handleMouseMove_newThreshold minV maxV logScale (Fin q)
      = Fin (exp (ln minV + q * (ln maxV - ln minV)))"
    by (simp add: handleMouseMove_newThreshold_def js_log_def js_sub_def Let_def)
  moreover have "ln minV + q * (ln maxV - ln minV) = ln x"
    unfolding q_def using ne by simp
  ultimately show ?thesis using frac pos by simp
qed

lemma fraction_roundtrip:
  assumes "minV < maxV"
  shows "\<exists>v. handleMouseMove_newThreshold minV maxV logScale (Fin p) = Fin v
           \<and> thresholdToPercentage minV maxV v logScale / 100 = p"
proof (cases "logScale \<and> 0 < minV")
  case False
  then have nt: "handleMouseMove_newThreshold minV maxV logScale (Fin p) = Fin (minV + p * (maxV - minV))"
    by (auto simp add: handleMouseMove_newThreshold_def)
  from False assms have "thresholdToPercentage minV maxV (minV + p * (maxV - minV)) logScale
      = ((minV + p * (maxV - minV) - minV) / (maxV - minV)) * 100"
    by (intro thresholdToPercentage_linear) auto
  also have "\<dots> = p * 100" using assms by simp
  finally have "thresholdToPercentage minV maxV (minV + p * (maxV - minV)) logScale / 100 = p"
    by simp
  with nt show ?thesis by blast
next
  case True
  with assms have pos: "0 < minV" "0 < maxV" by auto
  with assms have ne: "ln maxV - ln minV \<noteq> 0" by simp
  let ?v = "exp (ln minV + p * (ln maxV - ln minV))"
  from True pos have nt: "handleMouseMove_newThreshold minV maxV logScale (Fin p) = Fin ?v"
    by (simp add: handleMouseMove_newThreshold_def js_log_def js_sub_def Let_def)
  from True pos assms have "thresholdToPercentage minV maxV ?v logScale
      = ((ln ?v - ln minV) / (ln maxV - ln minV)) * 100"
    by (intro thresholdToPercentage_log) auto
  also have "\<dots> = p * 100" using ne by simp
  finally have "thresholdToPercentage minV maxV ?v logScale / 100 = p" by simp
  with nt show ?thesis by blast
qed

text \<open>
  With the flag set and a positive minimum, a value that is not positive is outside
  the round trip: its percentage is the linear one, and the handler interpolates
  logarithmically, to a positive value.
\<close>

lemma roundtrip_outside_log_domain:
  "handleMouseMove_newThreshold 1 100 True (Fin (thresholdToPercentage 1 100 (- 5) True / 100))
   \<noteq> Fin (- 5)"
proof -
  define q where "q = thresholdToPercentage 1 100 (- 5) True / 100"
  have "handleMouseMove_newThreshold 1 100 True (Fin q) = Fin (exp (q * ln 100))"
    by (simp add: handleMouseMove_newThreshold_def js_log_def js_sub_def)
  moreover have "exp (q * ln 100) \<noteq> - 5"
    using exp_gt_zero [of "q * ln 100"] by linarith
  ultimately show ?thesis unfolding q_def by simp
qed

text \<open>
  C4.  For \<open>min < max\<close> the two maps are inverse to each other.  Mapping a value to its
  percentage and the percentage, divided by 100, back through the interpolation of the
  pointer-move handler gives the value again: in the linear regime for every value, in
  the logarithmic regime (flag set, minimum positive) for every positive value.  And
  the percentage of the value interpolated from a fraction, divided by 100, is the
  fraction again.
\<close>

theorem value_fraction_roundtrip:
  assumes "minV < maxV"
  shows "((logScale \<and> 0 < minV \<longrightarrow> 0 < x) \<longrightarrow>
            handleMouseMove_newThreshold minV maxV logScale
              (Fin (thresholdToPercentage minV maxV x logScale / 100)) = Fin x)
       \<and> (\<exists>v. handleMouseMove_newThreshold minV maxV logScale (Fin p) = Fin v
              \<and> thresholdToPercentage minV maxV v logScale / 100 = p)"
  using value_roundtrip [OF assms, of logScale x] fraction_roundtrip [OF assms, of logScale p]
  by blast

theorem value_fraction_roundtrip_witness:
  "(0::real) < 100
   \<and> handleMouseMove_newThreshold 0 100 False (Fin (thresholdToPercentage 0 100 60 False / 100)) = Fin 60
   \<and> (1::real) < 100 \<and> 0 < (1::real) \<and> 0 < (10::real)
   \<and> handleMouseMove_newThreshold 1 100 True (Fin (thresholdToPercentage 1 100 10 True / 100)) = Fin 10"
  using value_fraction_roundtrip [where minV = 0 and maxV = 100 and x = 60 and logScale = False]
    value_fraction_roundtrip [where minV = 1 and maxV = 100 and x = 10 and logScale = True]
  by simp

section \<open>Claims about the fraction of the pointer-move handler\<close>

lemma handleMouseMove_percentage_unit:
  "\<exists>p. handleMouseMove_percentage clientX rect_left rect_width = Fin p \<and> 0 \<le> p \<and> p \<le> 1"
  by (auto simp add: handleMouseMove_percentage_def js_div_def Let_def)

lemma handleMouseMove_percentage_clamp:
  assumes "rect_width \<noteq> 0" and "clientX \<noteq> rect_left"
  shows "handleMouseMove_percentage clientX rect_left rect_width
         = Fin (max 0 (min 1 ((clientX - rect_left) / rect_width)))"
  using assms by (simp add: handleMouseMove_percentage_def js_div_def Let_def)

lemma handleMouseMove_percentage_zero_width:
  "handleMouseMove_percentage clientX rect_left 0 = (if rect_left \<le> clientX then Fin 1 else Fin 0)"
  by (auto simp add: handleMouseMove_percentage_def js_div_def Let_def)

text \<open>
  At the left edge itself the quotient is 0, which is falsy, and the fallback of
  \<^verbatim>\<open>||\<close> makes the fraction 1 whatever the width: here the handler leaves the clamp
  formula.
\<close>

lemma handleMouseMove_percentage_left_edge:
  "handleMouseMove_percentage rect_left rect_left rect_width = Fin 1"
  by (auto simp add: handleMouseMove_percentage_def js_div_def Let_def)

text \<open>
  C9, as stated: on a rectangle of zero width the fraction is 1.  It is not when the
  pointer is left of the rectangle: the quotient is then minus infinity, which is
  truthy, and the clamp makes it 0.
\<close>

theorem zero_width_fraction_counterexample:
  "handleMouseMove_percentage (- 5) 0 0 \<noteq> Fin 1"
  by (simp add: handleMouseMove_percentage_def js_div_def Let_def)

text \<open>
  C9, amended: for every pointer position and every rectangle, of zero width too, the
  fraction is a finite number in \<open>[0, 1]\<close>.  On a width that is not zero, with the
  pointer not exactly at the left edge, it is \<open>clamp((x - rectLeft) / rectWidth, 0, 1)\<close>.
  On a zero width the division is no error: the fraction is 1 when the pointer is at or
  right of the left edge and 0 when it is left of it.
\<close>

theorem handleMouseMove_percentage_bounds:
  "(\<exists>p. handleMouseMove_percentage clientX rect_left rect_width = Fin p \<and> 0 \<le> p \<and> p \<le> 1)
   \<and> (rect_width \<noteq> 0 \<and> clientX \<noteq> rect_left \<longrightarrow>
        handleMouseMove_percentage clientX rect_left rect_width
        = Fin (max 0 (min 1 ((clientX - rect_left) / rect_width))))
   \<and> (rect_width = 0 \<and> rect_left \<le> clientX \<longrightarrow>
        handleMouseMove_percentage clientX rect_left rect_width = Fin 1)
   \<and> (rect_width = 0 \<and> clientX < rect_left \<longrightarrow>
        handleMouseMove_percentage clientX rect_left rect_width = Fin 0)"
  using handleMouseMove_percentage_unit [of clientX rect_left rect_width]
    handleMouseMove_percentage_clamp [of rect_width clientX rect_left]
    handleMouseMove_percentage_zero_width [of clientX rect_left]
  by auto

theorem handleMouseMove_percentage_bounds_witness:
  "handleMouseMove_percentage 150 100 200 = Fin (1 / 4)
   \<and> handleMouseMove_percentage 700 100 200 = Fin 1
   \<and> handleMouseMove_percentage 600 0 0 = Fin 1
   \<and> handleMouseMove_percentage (- 5) 0 0 = Fin 0"
  using handleMouseMove_percentage_bounds [where clientX = 150 and rect_left = 100 and rect_width = 200]
    handleMouseMove_percentage_bounds [where clientX = 700 and rect_left = 100 and rect_width = 200]
    handleMouseMove_percentage_bounds [where clientX = 600 and rect_left = 0 and rect_width = 0]
    handleMouseMove_percentage_bounds [where clientX = "- 5" and rect_left = 0 and rect_width = 0]
  by simp

section \<open>Claims about the tick generator\<close>

lemmas computeTicks_linear_loop_unfold = computeTicks_linear_loop.simps
lemmas computeTicks_log_loop_unfold = computeTicks_log_loop.simps
declare computeTicks_linear_loop.simps [simp del]
declare computeTicks_log_loop.simps [simp del]

text \<open>The loops run for the indices below the ceiling of the count.\<close>

lemma below_count_iff: "real i < c \<longleftrightarrow> i < nat \<lceil>c\<rceil>"
  by (simp add: zless_nat_eq_int_zless less_ceiling_iff)

lemma computeTicks_linear_loop_eq:
  "computeTicks_linear_loop a b c i ts
   = ts @ map (\<lambda>j. Fin (a + (real j / (c - 1)) * (b - a))) [i..<nat \<lceil>c\<rceil>]"
proof (induction "nat \<lceil>c\<rceil> - i" arbitrary: i ts rule: less_induct)
  case less
  show ?case
  proof (cases "real i < c")
    case False
    then have none: "[i..<nat \<lceil>c\<rceil>] = []" by simp
    from False have stop: "computeTicks_linear_loop a b c i ts = ts"
      by (subst computeTicks_linear_loop_unfold) simp
    show ?thesis unfolding stop none by simp
  next
    case True
    then have lt: "i < nat \<lceil>c\<rceil>" by (simp add: below_count_iff)
    then have "nat \<lceil>c\<rceil> - (i + 1) < nat \<lceil>c\<rceil> - i" by simp
    from less.hyps [OF this]
    have "computeTicks_linear_loop a b c (i + 1) (ts @ [Fin (a + (real i / (c - 1)) * (b - a))])
          = (ts @ [Fin (a + (real i / (c - 1)) * (b - a))])
            @ map (\<lambda>j. Fin (a + (real j / (c - 1)) * (b - a))) [i + 1..<nat \<lceil>c\<rceil>]" .
    with True lt show ?thesis
      by (subst computeTicks_linear_loop_unfold) (simp add: upt_conv_Cons)
  qed
qed

lemma computeTicks_log_loop_eq:
  "computeTicks_log_loop lmin lmax c i ts
   = ts @ map (\<lambda>j. js_exp (js_add lmin (js_mul (Fin (real j / (c - 1))) (js_sub lmax lmin))))
            [i..<nat \<lceil>c\<rceil>]"
proof (induction "nat \<lceil>c\<rceil> - i" arbitrary: i ts rule: less_induct)
  case less
  show ?case
  proof (cases "real i < c")
    case False
    then have none: "[i..<nat \<lceil>c\<rceil>] = []" by simp
    from False have stop: "computeTicks_log_loop lmin lmax c i ts = ts"
      by (subst computeTicks_log_loop_unfold) simp
    show ?thesis unfolding stop none by simp
  next
    case True
    then have lt: "i < nat \<lceil>c\<rceil>" by (simp add: below_count_iff)
    then have "nat \<lceil>c\<rceil> - (i + 1) < nat \<lceil>c\<rceil> - i" by simp
    from less.hyps [OF this]
    have "computeTicks_log_loop lmin lmax c (i + 1)
            (ts @ [js_exp (js_add lmin (js_mul (Fin (real i / (c - 1))) (js_sub lmax lmin)))])
          = (ts @ [js_exp (js_add lmin (js_mul (Fin (real i / (c - 1))) (js_sub lmax lmin)))])
            @ map (\<lambda>j. js_exp (js_add lmin (js_mul (Fin (real j / (c - 1))) (js_sub lmax lmin))))
                [i + 1..<nat \<lceil>c\<rceil>]" .
    with True lt show ?thesis
      by (subst computeTicks_log_loop_unfold) (simp add: upt_conv_Cons Let_def)
  qed
qed

text \<open>Both loops together: \<^verbatim>\<open>computeTicks\<close> without its loops.\<close>

lemma computeTicks_eq:
  "computeTicks minV maxV logScale w req =
    (let c = (case req of Some c \<Rightarrow> c | None \<Rightarrow> of_int (max 6 (round (w / 40))))
     in if maxV = minV \<or> c < 2 then None
        else Some (map (\<lambda>j. if logScale \<and> 0 < minV
                     then js_exp (js_add (js_log minV)
                            (js_mul (Fin (real j / (c - 1))) (js_sub (js_log maxV) (js_log minV))))
                     else Fin (minV + (real j / (c - 1)) * (maxV - minV)))
                   [0..<nat \<lceil>c\<rceil>]))"
  by (auto simp add: computeTicks_def Let_def computeTicks_linear_loop_eq computeTicks_log_loop_eq
      split: option.splits)

lemma computeTicks_int_count:
  fixes k :: int
  assumes "maxV \<noteq> minV" and "2 \<le> k"
    and "req = Some (of_int k) \<or> (req = None \<and> k = max 6 (round (w / 40)))"
  shows "\<exists>ticks. computeTicks minV maxV logScale w req = Some ticks
           \<and> int (length ticks) = k
           \<and> ((logScale \<and> 0 < minV \<longrightarrow> 0 < maxV) \<longrightarrow> hd ticks = Fin minV \<and> last ticks = Fin maxV)"
proof -
  define f where "f = (\<lambda>j. if logScale \<and> 0 < minV
                     then js_exp (js_add (js_log minV)
                            (js_mul (Fin (real j / (of_int k - 1))) (js_sub (js_log maxV) (js_log minV))))
                     else Fin (minV + (real j / (of_int k - 1)) * (maxV - minV)))"
  from assms have res: "computeTicks minV maxV logScale w req = Some (map f [0..<nat k])"
    unfolding f_def by (auto simp add: computeTicks_eq Let_def)
  from assms(2) have len: "int (length (map f [0..<nat k])) = k" by simp
  from assms(2) have pos: "0 < nat k" by simp
  then have ne: "[0..<nat k] \<noteq> []" by simp
  have h: "hd (map f [0..<nat k]) = f 0"
    using ne pos by (simp add: hd_map)
  have l: "last (map f [0..<nat k]) = f (nat k - 1)"
    using ne pos by (simp add: last_map)
  from assms(2) have "real (nat k - 1) = of_int k - 1" by simp
  moreover from assms(2) have "(of_int k :: real) - 1 \<noteq> 0" by simp
  ultimately have one: "real (nat k - 1) / (of_int k - 1) = 1" by simp
  have first: "(logScale \<and> 0 < minV \<longrightarrow> 0 < maxV) \<longrightarrow> f 0 = Fin minV"
    by (auto simp add: f_def js_log_def js_sub_def)
  have final: "(logScale \<and> 0 < minV \<longrightarrow> 0 < maxV) \<longrightarrow> f (nat k - 1) = Fin maxV"
    unfolding f_def one by (auto simp add: js_log_def js_sub_def)
  from res len h l first final show ?thesis by simp
qed

lemma computeTicks_none:
  fixes requested :: "int option"
  shows "computeTicks minV maxV logScale w (map_option of_int requested) = None
     \<longleftrightarrow> maxV = minV \<or> (case requested of Some k \<Rightarrow> k | None \<Rightarrow> max 6 (round (w / 40))) < 2"
  by (auto simp add: computeTicks_eq Let_def split: option.splits)

lemma computeTicks_auto_length:
  assumes "maxV \<noteq> minV"
  shows "\<exists>ticks. computeTicks minV maxV logScale w None = Some ticks
           \<and> int (length ticks) = max 6 (round (w / 40))"
proof -
  have "(2::int) \<le> max 6 (round (w / 40))" by simp
  from computeTicks_int_count [OF assms this, of None w logScale] show ?thesis by auto
qed

text \<open>
  Outside a range \<open>min \<le> max\<close> the logarithmic spacing can meet a maximum that is not
  positive while the minimum is; \<^verbatim>\<open>Math.log\<close> of it is NaN, and so is every tick.
\<close>

lemma computeTicks_reversed_range:
  "computeTicks 1 (- 1) True 0 (Some 2) = Some [NaN, NaN]"
  by (simp add: computeTicks_def computeTicks_log_loop_unfold js_log_def js_sub_def)

text \<open>
  C8.  For a requested count that is an integer, or none:  \<^verbatim>\<open>computeTicks\<close> returns
  no sequence exactly when the maximum equals the minimum or the resolved count is
  below 2, the resolved count being the requested one when given and
  \<open>max(6, round(width / 40))\<close> otherwise.  A returned sequence has exactly as many
  elements as the resolved count, and over the reals it starts at the minimum and ends
  at the maximum: where the spacing is logarithmic (flag set, minimum positive) the
  maximum has to be positive for its logarithm to be a real, as it is on every range
  \<open>min \<le> max\<close>.  So with the flag off and 5 requested the sequence has exactly 5
  elements from the minimum to the maximum; with no requested count it has at least 6
  elements, and no fewer on a wider container.
\<close>

theorem computeTicks_resolved_count:
  fixes requested :: "int option"
  shows
  "(computeTicks minV maxV logScale w (map_option of_int requested) = None
      \<longleftrightarrow> maxV = minV \<or> (case requested of Some k \<Rightarrow> k | None \<Rightarrow> max 6 (round (w / 40))) < 2)
   \<and> (\<forall>ticks. computeTicks minV maxV logScale w (map_option of_int requested) = Some ticks \<longrightarrow>
        int (length ticks) = (case requested of Some k \<Rightarrow> k | None \<Rightarrow> max 6 (round (w / 40)))
        \<and> ((logScale \<and> 0 < minV \<longrightarrow> 0 < maxV) \<longrightarrow>
             hd ticks = Fin minV \<and> last ticks = Fin maxV))
   \<and> (maxV \<noteq> minV \<longrightarrow> (\<exists>ticks. computeTicks minV maxV False w (Some 5) = Some ticks
        \<and> length ticks = 5 \<and> hd ticks = Fin minV \<and> last ticks = Fin maxV))
   \<and> (maxV \<noteq> minV \<longrightarrow> (\<exists>ticks. computeTicks minV maxV logScale w None = Some ticks \<and> 6 \<le> length ticks))
   \<and> (maxV \<noteq> minV \<and> w \<le> w' \<longrightarrow>
        length (the (computeTicks minV maxV logScale w None))
        \<le> length (the (computeTicks minV maxV logScale w' None)))"
proof -
  define rc where "rc = (case requested of Some k \<Rightarrow> k | None \<Rightarrow> max 6 (round (w / 40)))"
  have none: "computeTicks minV maxV logScale w (map_option of_int requested) = None
      \<longleftrightarrow> maxV = minV \<or> rc < 2"
    unfolding rc_def by (rule computeTicks_none)
  have some: "\<forall>ticks. computeTicks minV maxV logScale w (map_option of_int requested) = Some ticks \<longrightarrow>
        int (length ticks) = rc \<and> ((logScale \<and> 0 < minV \<longrightarrow> 0 < maxV) \<longrightarrow>
             hd ticks = Fin minV \<and> last ticks = Fin maxV)"
  proof (intro allI impI)
    fix ticks
    assume res: "computeTicks minV maxV logScale w (map_option of_int requested) = Some ticks"
    with none have ne: "maxV \<noteq> minV" and two: "2 \<le> rc" by auto
    have "map_option real_of_int requested = Some (of_int rc)
          \<or> (map_option real_of_int requested = None \<and> rc = max 6 (round (w / 40)))"
      unfolding rc_def by (cases requested) simp_all
    from computeTicks_int_count [OF ne two this, of logScale] res
    show "int (length ticks) = rc \<and> ((logScale \<and> 0 < minV \<longrightarrow> 0 < maxV) \<longrightarrow>
             hd ticks = Fin minV \<and> last ticks = Fin maxV)"
      by auto
  qed
  have five: "maxV \<noteq> minV \<longrightarrow> (\<exists>ticks. computeTicks minV maxV False w (Some 5) = Some ticks
        \<and> length ticks = 5 \<and> hd ticks = Fin minV \<and> last ticks = Fin maxV)"
    using computeTicks_int_count [of maxV minV 5 "Some 5" w False] by auto
  have six: "maxV \<noteq> minV \<longrightarrow> (\<exists>ticks. computeTicks minV maxV logScale w None = Some ticks \<and> 6 \<le> length ticks)"
    using computeTicks_auto_length [of maxV minV logScale w] by auto
  have mono: "maxV \<noteq> minV \<and> w \<le> w' \<longrightarrow>
        length (the (computeTicks minV maxV logScale w None))
        \<le> length (the (computeTicks minV maxV logScale w' None))"
  proof
    assume a: "maxV \<noteq> minV \<and> w \<le> w'"
    then have "round (w / 40) \<le> round (w' / 40)" by (intro round_mono) simp
    then have "max 6 (round (w / 40)) \<le> max 6 (round (w' / 40))" by simp
    with a computeTicks_auto_length [of maxV minV logScale w]
      computeTicks_auto_length [of maxV minV logScale w']
    show "length (the (computeTicks minV maxV logScale w None))
        \<le> length (the (computeTicks minV maxV logScale w' None))"
      by auto
  qed
  from none some five six mono show ?thesis unfolding rc_def by blast
qed

theorem computeTicks_resolved_count_witness:
  "computeTicks 0 100 False 200 (map_option of_int (Some 5))
     = Some [Fin 0, Fin 25, Fin 50, Fin 75, Fin 100]
   \<and> hd [Fin 0, Fin 25, Fin 50, Fin 75, Fin 100] = Fin 0
   \<and> last [Fin 0, Fin 25, Fin 50, Fin 75, Fin 100] = Fin 100
   \<and> 0 < (1::real) \<and> 0 < (100::real)
   \<and> computeTicks 1 100 True 200 (map_option of_int (Some 2)) = Some [Fin 1, Fin 100]
   \<and> (100::real) \<noteq> 0 \<and> (200::real) \<le> 800
   \<and> 6 \<le> length (the (computeTicks 0 100 False 200 None))
   \<and> length (the (computeTicks 0 100 False 200 None))
      \<le> length (the (computeTicks 0 100 False 800 None))"
proof -
  have run: "computeTicks 0 100 False 200 (map_option of_int (Some 5))
     = Some [Fin 0, Fin 25, Fin 50, Fin 75, Fin 100]"
    by (simp add: computeTicks_def computeTicks_linear_loop_unfold)
  from computeTicks_resolved_count [where minV = 1 and maxV = 100 and logScale = True
      and w = 200 and w' = 800 and requested = "Some 2"]
  obtain ticks where two: "computeTicks 1 100 True 200 (map_option of_int (Some 2)) = Some ticks"
    and len: "int (length ticks) = 2" and ends: "hd ticks = Fin 1" "last ticks = Fin 100"
    by (cases "computeTicks 1 100 True 200 (map_option of_int (Some 2))") auto
  from len ends have "ticks = [Fin 1, Fin 100]"
    by (cases ticks; cases "tl ticks") auto
  with two have log: "computeTicks 1 100 True 200 (map_option of_int (Some 2)) = Some [Fin 1, Fin 100]"
    by simp
  from computeTicks_resolved_count [where minV = 0 and maxV = 100 and logScale = False
      and w = 200 and w' = 800 and requested = "Some 5"] run log
  show ?thesis by auto
qed

section \<open>Claims about the distribution\<close>

lemmas advance_index_unfold = advance_index.simps
lemmas bins_loop_unfold = bins_loop.simps
declare advance_index.simps [simp del]
declare bins_loop.simps [simp del]

text \<open>
  From a running index that has only passed elements at most \<open>b\<close>, the inner loop stops
  at the number of elements at most \<open>b\<close>.
\<close>

lemma advance_index_count:
  assumes "sorted s" and "ci \<le> length s" and "\<forall>j<ci. s ! j \<le> b"
  shows "advance_index s b ci = length (filter (\<lambda>y. y \<le> b) s)"
  using assms(2,3)
proof (induction "length s - ci" arbitrary: ci rule: less_induct)
  case less
  show ?case
  proof (cases "ci < length s \<and> s ! ci \<le> b")
    case True
    have step: "advance_index s b ci = advance_index s b (ci + 1)"
      using True by (subst advance_index_unfold) simp
    have "\<forall>j<ci + 1. s ! j \<le> b"
      using less.prems(2) True by (auto simp: less_Suc_eq)
    with less.hyps [of "ci + 1"] True step show ?thesis by simp
  next
    case False
    have stop: "advance_index s b ci = ci"
      using False by (subst advance_index_unfold) auto
    have "\<forall>i. ci \<le> i \<and> i < length s \<longrightarrow> \<not> s ! i \<le> b"
    proof (intro allI impI)
      fix i assume i: "ci \<le> i \<and> i < length s"
      with False have "b < s ! ci" by auto
      also from i assms(1) have "s ! ci \<le> s ! i" by (simp add: sorted_nth_mono)
      finally show "\<not> s ! i \<le> b" by simp
    qed
    with split_index_count [of ci s "\<lambda>y. y \<le> b"] less.prems stop show ?thesis by simp
  qed
qed

lemma count_le_mono:
  fixes b :: real
  assumes "b \<le> b'"
  shows "length (filter (\<lambda>y. y \<le> b) s) \<le> length (filter (\<lambda>y. y \<le> b') s)"
proof -
  have "filter (\<lambda>y. y \<le> b) s = filter (\<lambda>y. y \<le> b) (filter (\<lambda>y. y \<le> b') s)"
    using assms by (auto intro!: filter_cong)
  then show ?thesis by (metis length_filter_le)
qed

lemma count_le_prefix:
  fixes s :: "real list"
  assumes "sorted s" and "j < length (filter (\<lambda>y. y \<le> b) s)"
  shows "s ! j \<le> b"
  using upperBound_split [OF assms(1), of b] assms(2) upperBound_count [OF assms(1), of b]
  by simp

text \<open>
  The loop over the boundaries, with boundaries that do not decrease: each point holds
  its boundary and the number of elements at most that boundary.
\<close>

lemma bins_loop_eq:
  assumes "sorted s" and "0 \<le> binSize"
  shows "ci \<le> length s \<Longrightarrow> \<forall>j<ci. s ! j \<le> minV + real i * binSize \<Longrightarrow>
    bins_loop s minV binSize binCount i ci data
    = data @ map (\<lambda>j. \<lparr>pt_value = minV + real j * binSize,
                        pt_count = length (filter (\<lambda>y. y \<le> minV + real j * binSize) s)\<rparr>)
               [i..<Suc binCount]"
proof (induction "Suc binCount - i" arbitrary: i ci data rule: less_induct)
  case less
  show ?case
  proof (cases "i \<le> binCount")
    case False
    then have none: "[i..<Suc binCount] = []" by simp
    from False have stop: "bins_loop s minV binSize binCount i ci data = data"
      by (subst bins_loop_unfold) simp
    show ?thesis unfolding stop none by simp
  next
    case True
    let ?b = "minV + real i * binSize"
    let ?k = "length (filter (\<lambda>y. y \<le> ?b) s)"
    have adv: "advance_index s ?b ci = ?k"
      using advance_index_count [OF assms(1) less.prems] .
    have step: "bins_loop s minV binSize binCount i ci data
         = bins_loop s minV binSize binCount (i + 1) ?k (data @ [\<lparr>pt_value = ?b, pt_count = ?k\<rparr>])"
      using True by (subst bins_loop_unfold) (simp add: Let_def adv)
    have klen: "?k \<le> length s" by simp
    have "?b \<le> minV + real (i + 1) * binSize"
      using assms(2) by (simp add: algebra_simps)
    with count_le_prefix [OF assms(1), of _ ?b]
    have pre: "\<forall>j<?k. s ! j \<le> minV + real (i + 1) * binSize"
      by (meson order_trans)
    from True have split: "[i..<Suc binCount] = i # [i + 1..<Suc binCount]"
      by (simp add: upt_conv_Cons del: upt_Suc)
    from True have "Suc binCount - (i + 1) < Suc binCount - i" by simp
    from less.hyps [OF this klen pre]
    have rest: "bins_loop s minV binSize binCount (i + 1) ?k (data @ [\<lparr>pt_value = ?b, pt_count = ?k\<rparr>])
        = (data @ [\<lparr>pt_value = ?b, pt_count = ?k\<rparr>])
          @ map (\<lambda>j. \<lparr>pt_value = minV + real j * binSize,
                        pt_count = length (filter (\<lambda>y. y \<le> minV + real j * binSize) s)\<rparr>)
               [i + 1..<Suc binCount]" .
    show ?thesis unfolding step rest split by simp
  qed
qed

text \<open>The ends of the sorted copy are the least and the greatest value.\<close>

lemma sort_first_Min:
  assumes "values \<noteq> []"
  shows "sort values ! 0 = Min (set values)"
proof -
  from assms have len: "0 < length (sort values)" by simp
  have "Min (set (sort values)) = sort values ! 0"
  proof (rule Min_eqI)
    show "finite (set (sort values))" by simp
    show "sort values ! 0 \<in> set (sort values)" using len by (simp only: nth_mem)
    fix y assume "y \<in> set (sort values)"
    then obtain i where "i < length (sort values)" "y = sort values ! i"
      by (metis in_set_conv_nth)
    then show "sort values ! 0 \<le> y"
      using sorted_nth_mono [of "sort values" 0 i] by simp
  qed
  then show ?thesis by simp
qed

lemma sort_last_Max:
  assumes "values \<noteq> []"
  shows "sort values ! (length (sort values) - 1) = Max (set values)"
proof -
  from assms have len: "0 < length (sort values)" by simp
  have "Max (set (sort values)) = sort values ! (length (sort values) - 1)"
  proof (rule Max_eqI)
    show "finite (set (sort values))" by simp
    show "sort values ! (length (sort values) - 1) \<in> set (sort values)"
      using len by (simp only: nth_mem diff_less zero_less_one)
    fix y assume "y \<in> set (sort values)"
    then obtain i where "i < length (sort values)" "y = sort values ! i"
      by (metis in_set_conv_nth)
    then show "y \<le> sort values ! (length (sort values) - 1)"
      using sorted_nth_mono [of "sort values" i "length (sort values) - 1"] by simp
  qed
  then show ?thesis by simp
qed

text \<open>The computation on a collection that is not empty, by regime.\<close>

lemma cumulativeDistribution_nonempty:
  assumes "values \<noteq> []"
  shows "cumulativeDistribution values =
     (if Min (set values) = Max (set values) then
        \<lparr>chartData = [\<lparr>pt_value = Min (set values), pt_count = 0\<rparr>,
                      \<lparr>pt_value = Min (set values), pt_count = length values\<rparr>],
         minValue = Min (set values), maxValue = Min (set values), sortedValues = sort values\<rparr>
      else
        \<lparr>chartData =
           (if length values \<le> 50 then
              map (\<lambda>(index, v). \<lparr>pt_value = v, pt_count = index + 1\<rparr>) (enumerate 0 (sort values))
            else bins_loop (sort values) (Min (set values))
                   ((Max (set values) - Min (set values)) / real (min 100 (length values)))
                   (min 100 (length values)) 0 0 []),
         minValue = Min (set values), maxValue = Max (set values), sortedValues = sort values\<rparr>)"
proof -
  have first: "sort values ! 0 = Min (set values)" by (rule sort_first_Min [OF assms])
  have final: "sort values ! (length values - Suc 0) = Max (set values)"
    using sort_last_Max [OF assms] by simp
  from assms show ?thesis
    by (simp add: cumulativeDistribution_def Let_def first final)
qed

lemma cumulativeDistribution_binned:
  assumes "50 < length values" and "Min (set values) < Max (set values)"
  shows "chartData (cumulativeDistribution values) =
     map (\<lambda>j. \<lparr>pt_value = Min (set values)
                   + real j * ((Max (set values) - Min (set values)) / real (min 100 (length values))),
                pt_count = length (filter (\<lambda>y. y \<le> Min (set values)
                   + real j * ((Max (set values) - Min (set values)) / real (min 100 (length values))))
                   (sort values))\<rparr>)
         [0..<Suc (min 100 (length values))]"
proof -
  from assms(1) have ne: "values \<noteq> []" by auto
  have size: "0 \<le> (Max (set values) - Min (set values)) / real (min 100 (length values))"
    using assms by simp
  have "chartData (cumulativeDistribution values)
        = bins_loop (sort values) (Min (set values))
            ((Max (set values) - Min (set values)) / real (min 100 (length values)))
            (min 100 (length values)) 0 0 []"
    using assms by (simp add: cumulativeDistribution_nonempty [OF ne])
  also have "\<dots> = [] @ map (\<lambda>j. \<lparr>pt_value = Min (set values)
                   + real j * ((Max (set values) - Min (set values)) / real (min 100 (length values))),
                pt_count = length (filter (\<lambda>y. y \<le> Min (set values)
                   + real j * ((Max (set values) - Min (set values)) / real (min 100 (length values))))
                   (sort values))\<rparr>)
         [0..<Suc (min 100 (length values))]"
    by (rule bins_loop_eq [OF _ size]) simp_all
  finally show ?thesis by simp
qed

lemma exact_points_eq:
  "map (\<lambda>(index, v). \<lparr>pt_value = v, pt_count = index + 1\<rparr>) (enumerate 0 xs)
   = map (\<lambda>i. \<lparr>pt_value = xs ! i, pt_count = i + 1\<rparr>) [0..<length xs]"
  by (rule nth_equalityI) (simp_all add: nth_enumerate_eq)

lemma cumulativeDistribution_exact:
  assumes "values \<noteq> []" and "length values \<le> 50" and "Min (set values) < Max (set values)"
  shows "chartData (cumulativeDistribution values)
         = map (\<lambda>i. \<lparr>pt_value = sort values ! i, pt_count = i + 1\<rparr>) [0..<length values]"
  using assms exact_points_eq [of "sort values"]
  by (simp add: cumulativeDistribution_nonempty [OF assms(1)])

lemma counts_sorted:
  "sorted (map pt_count (chartData (cumulativeDistribution values)))"
proof (cases "values = []")
  case True
  then show ?thesis by (simp add: cumulativeDistribution_def)
next
  case ne: False
  show ?thesis
  proof (cases "Min (set values) = Max (set values)")
    case True
    then show ?thesis by (simp add: cumulativeDistribution_nonempty [OF ne])
  next
    case False
    moreover have "Min (set values) \<le> Max (set values)" using ne by simp
    ultimately have lt: "Min (set values) < Max (set values)" by simp
    show ?thesis
    proof (cases "length values \<le> 50")
      case True
      have "map pt_count (chartData (cumulativeDistribution values)) = map Suc [0..<length values]"
        unfolding cumulativeDistribution_exact [OF ne True lt] by simp
      moreover have "sorted (map Suc [0..<length values])"
        by (simp add: sorted_iff_nth_mono del: upt_Suc)
      ultimately show ?thesis by simp
    next
      case False
      then have big: "50 < length values" by simp
      let ?n = "min 100 (length values)"
      let ?w = "(Max (set values) - Min (set values)) / real ?n"
      let ?c = "\<lambda>j. length (filter (\<lambda>y. y \<le> Min (set values) + real j * ?w) (sort values))"
      have eq: "map pt_count (chartData (cumulativeDistribution values)) = map ?c [0..<Suc ?n]"
        unfolding cumulativeDistribution_binned [OF big lt] by (simp del: upt_Suc)
      have w: "0 \<le> ?w" using lt by simp
      have "sorted (map ?c [0..<Suc ?n])"
        unfolding sorted_iff_nth_mono
      proof (intro allI impI)
        fix i j assume ij: "i \<le> j" and j: "j < length (map ?c [0..<Suc ?n])"
        then have jn: "j < Suc ?n" and "i < Suc ?n" by simp_all
        then have "map ?c [0..<Suc ?n] ! i = ?c i" and "map ?c [0..<Suc ?n] ! j = ?c j"
          by (simp_all del: upt_Suc)
        moreover have "real i * ?w \<le> real j * ?w"
          using ij w by (intro mult_right_mono) simp_all
        then have "Min (set values) + real i * ?w \<le> Min (set values) + real j * ?w"
          by (rule add_left_mono)
        then have "?c i \<le> ?c j" by (rule count_le_mono)
        ultimately show "map ?c [0..<Suc ?n] ! i \<le> map ?c [0..<Suc ?n] ! j" by simp
      qed
      with eq show ?thesis by simp
    qed
  qed
qed

section \<open>The last boundary of a binned chart on doubles\<close>








section \<open>Claims about the binned distribution\<close>

lemmas advance_index_fl_unfold = advance_index_fl.simps
lemmas bins_loop_fl_unfold = bins_loop_fl.simps
declare advance_index_fl.simps [simp del]
declare bins_loop_fl.simps [simp del]

lemma js_le_down: "js_leq (Fin y') b \<Longrightarrow> y \<le> y' \<Longrightarrow> js_leq (Fin y) b"
  by (cases b) auto

lemma js_le_trans: "js_leq (Fin y) b \<Longrightarrow> js_leq b b' \<Longrightarrow> js_leq (Fin y) b'"
  by (cases b; cases b') auto

lemma advance_index_fl_count:
  assumes "sorted s" and "ci \<le> length s" and "\<forall>j<ci. js_leq (Fin (s ! j)) b"
  shows "advance_index_fl s b ci = length (filter (\<lambda>y. js_leq (Fin y) b) s)"
  using assms(2,3)
proof (induction "length s - ci" arbitrary: ci rule: less_induct)
  case less
  show ?case
  proof (cases "ci < length s \<and> js_leq (Fin (s ! ci)) b")
    case True
    have step: "advance_index_fl s b ci = advance_index_fl s b (ci + 1)"
      using True by (subst advance_index_fl_unfold) simp
    have "\<forall>j<ci + 1. js_leq (Fin (s ! j)) b"
      using less.prems(2) True by (auto simp: less_Suc_eq)
    with less.hyps [of "ci + 1"] True step show ?thesis by simp
  next
    case False
    have stop: "advance_index_fl s b ci = ci"
      using False by (subst advance_index_fl_unfold) auto
    have "\<forall>i. ci \<le> i \<and> i < length s \<longrightarrow> \<not> js_leq (Fin (s ! i)) b"
    proof (intro allI impI)
      fix i assume i: "ci \<le> i \<and> i < length s"
      with False have here: "\<not> js_leq (Fin (s ! ci)) b" by auto
      from i assms(1) have "s ! ci \<le> s ! i" by (simp add: sorted_nth_mono)
      with here show "\<not> js_leq (Fin (s ! i)) b" using js_le_down by blast
    qed
    with split_index_count [of ci s "\<lambda>y. js_leq (Fin y) b"] less.prems stop show ?thesis by simp
  qed
qed

lemma js_le_count_prefix:
  assumes "sorted s" and "j < length (filter (\<lambda>y. js_leq (Fin y) b) s)"
  shows "js_leq (Fin (s ! j)) b"
proof (rule ccontr)
  assume no: "\<not> js_leq (Fin (s ! j)) b"
  have jlen: "j < length s"
    by (rule less_le_trans [OF assms(2) length_filter_le])
  have "\<forall>y \<in> set (drop j s). \<not> js_leq (Fin y) b"
  proof
    fix y assume "y \<in> set (drop j s)"
    then obtain k where k: "k < length (drop j s)" "y = drop j s ! k"
      by (metis in_set_conv_nth)
    then have "y = s ! (j + k)" and "j + k < length s" by simp_all
    with assms(1) have "s ! j \<le> y" by (simp add: sorted_nth_mono)
    with no show "\<not> js_leq (Fin y) b" using js_le_down by blast
  qed
  then have "filter (\<lambda>y. js_leq (Fin y) b) (drop j s) = []" by (simp add: filter_empty_conv)
  moreover have "filter (\<lambda>y. js_leq (Fin y) b) s
      = filter (\<lambda>y. js_leq (Fin y) b) (take j s) @ filter (\<lambda>y. js_leq (Fin y) b) (drop j s)"
    by (metis append_take_drop_id filter_append)
  ultimately have same: "length (filter (\<lambda>y. js_leq (Fin y) b) s)
      = length (filter (\<lambda>y. js_leq (Fin y) b) (take j s))"
    by simp
  have "length (filter (\<lambda>y. js_leq (Fin y) b) (take j s)) \<le> j"
    by (rule order_trans [OF length_filter_le]) simp
  with assms(2) same show False by linarith
qed


lemma shifted_round_mono:
  assumes nn: "\<forall>x. fl x \<noteq> NaN" and mono: "\<forall>x y. x \<le> y \<longrightarrow> js_leq (fl x) (fl y)"
    and "js_leq a a'"
  shows "js_leq (js_round fl (js_add (Fin m) a)) (js_round fl (js_add (Fin m) a'))"
proof (cases a)
  case (Fin x)
  show ?thesis
  proof (cases a')
    case (Fin y)
    with \<open>a = Fin x\<close> assms(3) have "m + x \<le> m + y" by simp
    with mono have "js_leq (fl (m + x)) (fl (m + y))" by blast
    with Fin \<open>a = Fin x\<close> show ?thesis by (simp add: js_round_def)
  next
    case PInf
    with Fin nn [rule_format, of "m + x"] show ?thesis
      by (cases "fl (m + x)") (simp_all add: js_round_def)
  qed (use Fin assms(3) in simp_all)
next
  case NInf
  show ?thesis
  proof (cases a')
    case (Fin y)
    with NInf nn [rule_format, of "m + y"] show ?thesis
      by (cases "fl (m + y)") (simp_all add: js_round_def)
  qed (use NInf assms(3) in \<open>simp_all add: js_round_def\<close>)
next
  case PInf
  with assms(3) show ?thesis by (cases a') (simp_all add: js_round_def)
next
  case NaN
  with assms(3) show ?thesis by simp
qed

lemma boundaries_mono:
  assumes nn: "\<forall>x. fl x \<noteq> NaN" and mono: "\<forall>x y. x \<le> y \<longrightarrow> js_leq (fl x) (fl y)"
    and size: "js_leq (Fin 0) binSize"
  shows "js_round fl (js_add (Fin m) (js_round fl (js_mul (Fin (real i)) binSize))) = NaN
       \<or> js_leq (js_round fl (js_add (Fin m) (js_round fl (js_mul (Fin (real i)) binSize))))
                 (js_round fl (js_add (Fin m) (js_round fl (js_mul (Fin (real (i + 1))) binSize))))"
proof (cases binSize)
  case (Fin s)
  with size have "0 \<le> s" by simp
  then have "real i * s \<le> real (i + 1) * s" by (intro mult_right_mono) simp_all
  with mono have "js_leq (fl (real i * s)) (fl (real (i + 1) * s))" by blast
  then have "js_leq (js_round fl (js_mul (Fin (real i)) binSize))
                    (js_round fl (js_mul (Fin (real (i + 1))) binSize))"
    using Fin by (simp add: js_round_def)
  from shifted_round_mono [OF nn mono this] show ?thesis by blast
next
  case PInf
  show ?thesis
  proof (cases "i = 0")
    case True
    with PInf show ?thesis by (simp add: js_round_def)
  next
    case False
    with PInf show ?thesis by (simp add: js_round_def)
  qed
next
  case NInf
  with size show ?thesis by simp
next
  case NaN
  with size show ?thesis by simp
qed

lemma bins_loop_fl_eq:
  assumes "sorted s"
    and seq: "\<forall>i. bv i = NaN \<or> js_leq (bv i) (bv (i + 1))"
    and bv: "bv = (\<lambda>i. js_round fl (js_add (Fin minV) (js_round fl (js_mul (Fin (real i)) binSize))))"
  shows "ci \<le> length s \<Longrightarrow> \<forall>j<ci. js_leq (Fin (s ! j)) (bv i) \<Longrightarrow>
    bins_loop_fl fl s minV binSize binCount i ci data
    = data @ map (\<lambda>j. \<lparr>fp_value = bv j,
                        fp_count = length (filter (\<lambda>y. js_leq (Fin y) (bv j)) s)\<rparr>)
               [i..<Suc binCount]"
proof (induction "Suc binCount - i" arbitrary: i ci data rule: less_induct)
  case less
  show ?case
  proof (cases "i \<le> binCount")
    case False
    then have none: "[i..<Suc binCount] = []" by simp
    from False have stop: "bins_loop_fl fl s minV binSize binCount i ci data = data"
      by (subst bins_loop_fl_unfold) simp
    show ?thesis unfolding stop none by simp
  next
    case True
    let ?k = "length (filter (\<lambda>y. js_leq (Fin y) (bv i)) s)"
    have adv: "advance_index_fl s (bv i) ci = ?k"
      using advance_index_fl_count [OF assms(1) less.prems] .
    have step: "bins_loop_fl fl s minV binSize binCount i ci data
         = bins_loop_fl fl s minV binSize binCount (i + 1) ?k
             (data @ [\<lparr>fp_value = bv i, fp_count = ?k\<rparr>])"
      using True adv by (subst bins_loop_fl_unfold) (simp add: Let_def bv)
    have klen: "?k \<le> length s" by simp
    have pre: "\<forall>j<?k. js_leq (Fin (s ! j)) (bv (i + 1))"
    proof (intro allI impI)
      fix j assume j: "j < ?k"
      then have here: "js_leq (Fin (s ! j)) (bv i)" by (rule js_le_count_prefix [OF assms(1)])
      then have "bv i \<noteq> NaN" by auto
      with seq have "js_leq (bv i) (bv (i + 1))" by blast
      with here show "js_leq (Fin (s ! j)) (bv (i + 1))" by (rule js_le_trans)
    qed
    from True have split: "[i..<Suc binCount] = i # [i + 1..<Suc binCount]"
      by (simp add: upt_conv_Cons del: upt_Suc)
    from True have "Suc binCount - (i + 1) < Suc binCount - i" by simp
    from less.hyps [OF this klen pre]
    have rest: "bins_loop_fl fl s minV binSize binCount (i + 1) ?k
          (data @ [\<lparr>fp_value = bv i, fp_count = ?k\<rparr>])
        = (data @ [\<lparr>fp_value = bv i, fp_count = ?k\<rparr>])
          @ map (\<lambda>j. \<lparr>fp_value = bv j,
                        fp_count = length (filter (\<lambda>y. js_leq (Fin y) (bv j)) s)\<rparr>)
               [i + 1..<Suc binCount]" .
    show ?thesis unfolding step rest split by simp
  qed
qed


lemma cumulativeDistribution_fl_nonempty:
  assumes "values \<noteq> []"
  shows "cumulativeDistribution_fl fl values =
     (if Min (set values) = Max (set values) then
        \<lparr>fchartData = [\<lparr>fp_value = Fin (Min (set values)), fp_count = 0\<rparr>,
                       \<lparr>fp_value = Fin (Min (set values)), fp_count = length values\<rparr>],
         fminValue = Min (set values), fmaxValue = Min (set values), fsortedValues = sort values\<rparr>
      else
        \<lparr>fchartData =
           (if length values \<le> 50 then
              map (\<lambda>(index, v). \<lparr>fp_value = Fin v, fp_count = index + 1\<rparr>) (enumerate 0 (sort values))
            else bins_loop_fl fl (sort values) (Min (set values))
                   (js_round fl (js_quot (js_round fl (js_sub (Fin (Max (set values))) (Fin (Min (set values)))))
                                   (real (min 100 (length values)))))
                   (min 100 (length values)) 0 0 []),
         fminValue = Min (set values), fmaxValue = Max (set values), fsortedValues = sort values\<rparr>)"
proof -
  have first: "sort values ! 0 = Min (set values)" by (rule sort_first_Min [OF assms])
  have final: "sort values ! (length values - Suc 0) = Max (set values)"
    using sort_last_Max [OF assms] by simp
  from assms show ?thesis
    by (simp add: cumulativeDistribution_fl_def Let_def first final)
qed

lemma binSize_nonneg:
  assumes nn: "\<forall>x. fl x \<noteq> NaN" and zero: "fl 0 = Fin 0"
    and mono: "\<forall>x y. x \<le> y \<longrightarrow> js_leq (fl x) (fl y)"
    and "minV < maxV" and "0 < n"
  shows "js_leq (Fin 0) (js_round fl (js_quot (js_round fl (js_sub (Fin maxV) (Fin minV))) (real n)))"
proof -
  from assms(4) mono have "js_leq (fl 0) (fl (maxV - minV))" by simp
  with zero have d: "js_leq (Fin 0) (fl (maxV - minV))" by simp
  show ?thesis
  proof (cases "fl (maxV - minV)")
    case (Fin d)
    with d have "0 \<le> d / real n" by simp
    with mono have "js_leq (fl 0) (fl (d / real n))" by blast
    with zero Fin assms(5) show ?thesis
      by (simp add: js_round_def js_sub_def js_div_def)
  next
    case PInf
    with assms(5) show ?thesis by (simp add: js_round_def js_sub_def)
  next
    case NInf
    with d show ?thesis by simp
  next
    case NaN
    with d show ?thesis by simp
  qed
qed

lemma cumulativeDistribution_fl_binned:
  assumes nn: "\<forall>x. fl x \<noteq> NaN" and zero: "fl 0 = Fin 0"
    and mono: "\<forall>x y. x \<le> y \<longrightarrow> js_leq (fl x) (fl y)"
    and big: "50 < length values" and lt: "Min (set values) < Max (set values)"
    and size: "binSize = js_round fl (js_quot (js_round fl
                 (js_sub (Fin (Max (set values))) (Fin (Min (set values)))))
                 (real (min 100 (length values))))"
    and bv: "bv = (\<lambda>i. js_round fl (js_add (Fin (Min (set values)))
                 (js_round fl (js_mul (Fin (real i)) binSize))))"
  shows "fchartData (cumulativeDistribution_fl fl values) =
     map (\<lambda>j. \<lparr>fp_value = bv j, fp_count = length (filter (\<lambda>y. js_leq (Fin y) (bv j)) (sort values))\<rparr>)
         [0..<Suc (min 100 (length values))]"
proof -
  have ne: "values \<noteq> []"
  proof
    assume "values = []"
    with big show False by simp
  qed
  from big have "50 < min 100 (length values)" by simp
  then have pos: "0 < min 100 (length values)" by linarith
  have nonneg: "js_leq (Fin 0) binSize"
    unfolding size by (rule binSize_nonneg [OF nn zero mono lt pos])
  have seq: "\<forall>i. bv i = NaN \<or> js_leq (bv i) (bv (i + 1))"
    unfolding bv using boundaries_mono [OF nn mono nonneg] by blast
  have "fchartData (cumulativeDistribution_fl fl values)
        = bins_loop_fl fl (sort values) (Min (set values)) binSize (min 100 (length values)) 0 0 []"
    using big lt by (simp add: cumulativeDistribution_fl_nonempty [OF ne] size)
  also have "\<dots> = [] @ map (\<lambda>j. \<lparr>fp_value = bv j,
          fp_count = length (filter (\<lambda>y. js_leq (Fin y) (bv j)) (sort values))\<rparr>)
         [0..<Suc (min 100 (length values))]"
    by (rule bins_loop_fl_eq [OF _ seq bv]) simp_all
  finally show ?thesis by simp
qed

text \<open>Over exact arithmetic the computation with its roundings written out is the
  computation on reals.\<close>

lemma exact_rounding_agrees:
  "fchartData (cumulativeDistribution_fl Fin values)
   = map (\<lambda>p. \<lparr>fp_value = Fin (pt_value p), fp_count = pt_count p\<rparr>)
       (chartData (cumulativeDistribution values))"
proof (cases "values = []")
  case True
  then show ?thesis by (simp add: cumulativeDistribution_def cumulativeDistribution_fl_def)
next
  case ne: False
  show ?thesis
  proof (cases "50 < length values \<and> Min (set values) < Max (set values)")
    case False
    moreover from ne have "hd values \<in> set values" by simp
    then have "Min (set values) \<le> hd values" and "hd values \<le> Max (set values)" by simp_all
    ultimately have "Min (set values) = Max (set values) \<or> length values \<le> 50"
      by linarith
    then show ?thesis
      by (auto simp add: cumulativeDistribution_nonempty [OF ne]
            cumulativeDistribution_fl_nonempty [OF ne] split_def)
  next
    case True
    then have big: "50 < length values" and lt: "Min (set values) < Max (set values)" by simp_all
    let ?n = "min 100 (length values)"
    from big have "50 < ?n" by simp
    then have pos: "real ?n \<noteq> 0" by linarith
    have sz: "Fin ((Max (set values) - Min (set values)) / real ?n)
        = js_round Fin (js_quot (js_round Fin
            (js_sub (Fin (Max (set values))) (Fin (Min (set values))))) (real ?n))"
      using pos by (simp add: js_round_def js_sub_def js_div_def)
    have bd: "(\<lambda>j. Fin (Min (set values) + real j * ((Max (set values) - Min (set values)) / real ?n)))
        = (\<lambda>j. js_round Fin (js_add (Fin (Min (set values)))
             (js_round Fin (js_mul (Fin (real j))
                (Fin ((Max (set values) - Min (set values)) / real ?n))))))"
      by (simp add: js_round_def)
    have e: "fchartData (cumulativeDistribution_fl Fin values) =
       map (\<lambda>j. \<lparr>fp_value = Fin (Min (set values) + real j * ((Max (set values) - Min (set values)) / real ?n)),
                  fp_count = length (filter (\<lambda>y. js_leq (Fin y)
                    (Fin (Min (set values) + real j * ((Max (set values) - Min (set values)) / real ?n))))
                    (sort values))\<rparr>)
         [0..<Suc ?n]"
      by (rule cumulativeDistribution_fl_binned [OF _ _ _ big lt sz bd]) simp_all
    show ?thesis
      unfolding e cumulativeDistribution_binned [OF big lt] by (simp del: upt_Suc)
  qed
qed

text \<open>The counts do not decrease on rounded arithmetic either, whatever the rounding:
  the running index never moves back.\<close>

lemma advance_index_fl_ge: "currentIndex \<le> advance_index_fl sortedV binValue currentIndex"
proof (induction sortedV binValue currentIndex rule: advance_index_fl.induct)
  case (1 sortedV binValue currentIndex)
  show ?case
  proof (cases "currentIndex < length sortedV \<and> js_leq (Fin (sortedV ! currentIndex)) binValue")
    case True
    with 1 have "currentIndex + 1 \<le> advance_index_fl sortedV binValue (currentIndex + 1)" by simp
    with True show ?thesis by (subst advance_index_fl_unfold) simp
  next
    case False
    then show ?thesis by (subst advance_index_fl_unfold) auto
  qed
qed

lemma bins_loop_fl_sorted:
  assumes "sorted (map fp_count data)" and "\<forall>p \<in> set data. fp_count p \<le> currentIndex"
  shows "sorted (map fp_count (bins_loop_fl fl sortedV minV binSize binCount i currentIndex data))"
  using assms
proof (induction fl sortedV minV binSize binCount i currentIndex data rule: bins_loop_fl.induct)
  case (1 fl sortedV minV binSize binCount i currentIndex data)
  show ?case
  proof (cases "i \<le> binCount")
    case False
    with 1(2) show ?thesis by (subst bins_loop_fl_unfold) simp
  next
    case True
    define b where "b = js_round fl (js_add (Fin minV) (js_round fl (js_mul (Fin (real i)) binSize)))"
    define c where "c = advance_index_fl sortedV b currentIndex"
    have ge: "currentIndex \<le> c" unfolding c_def by (rule advance_index_fl_ge)
    have s: "sorted (map fp_count (data @ [\<lparr>fp_value = b, fp_count = c\<rparr>]))"
      using 1(2,3) ge by (auto simp add: sorted_append)
    have u: "\<forall>p \<in> set (data @ [\<lparr>fp_value = b, fp_count = c\<rparr>]). fp_count p \<le> c"
      using 1(3) ge by auto
    have "sorted (map fp_count (bins_loop_fl fl sortedV minV binSize binCount (i + 1) c
            (data @ [\<lparr>fp_value = b, fp_count = c\<rparr>])))"
      by (rule 1(1) [OF True b_def c_def s u])
    with True show ?thesis
      by (subst bins_loop_fl_unfold) (simp add: Let_def b_def c_def)
  qed
qed

lemma counts_sorted_fl:
  "sorted (map fp_count (fchartData (cumulativeDistribution_fl fl values)))"
proof (cases "values \<noteq> [] \<and> 50 < length values \<and> Min (set values) \<noteq> Max (set values)")
  case True
  then show ?thesis
    by (simp add: cumulativeDistribution_fl_nonempty bins_loop_fl_sorted)
next
  case False
  then have "fchartData (cumulativeDistribution_fl fl values)
      = fchartData (cumulativeDistribution_fl Fin values)"
  proof (cases "values = []")
    case True
    then show ?thesis by (simp add: cumulativeDistribution_fl_def)
  next
    case ne: False
    with False show ?thesis
      unfolding cumulativeDistribution_fl_nonempty [OF ne] by auto
  qed
  then have "map fp_count (fchartData (cumulativeDistribution_fl fl values))
      = map pt_count (chartData (cumulativeDistribution values))"
    unfolding exact_rounding_agrees by (simp add: comp_def)
  with counts_sorted [of "values"] show ?thesis by simp
qed





section \<open>Claims about the counts along the chart\<close>

text \<open>
  C7.  In every regime the counts do not decrease along the chart.  For at most 50
  values with \<open>min < max\<close> the points are \<open>(sorted[i], i + 1)\<close>, and the count of the
  last point is the number of values.
\<close>

theorem counts_nondecreasing:
  "sorted (map pt_count (chartData (cumulativeDistribution values)))
   \<and> (values \<noteq> [] \<and> length values \<le> 50 \<and> Min (set values) < Max (set values) \<longrightarrow>
        chartData (cumulativeDistribution values)
          = map (\<lambda>i. \<lparr>pt_value = sort values ! i, pt_count = i + 1\<rparr>) [0..<length values]
        \<and> pt_count (last (chartData (cumulativeDistribution values))) = length values)"
proof -
  have "pt_count (last (chartData (cumulativeDistribution values))) = length values"
    if a: "values \<noteq> []" "length values \<le> 50" "Min (set values) < Max (set values)"
  proof -
    from a(1) have "[0..<length values] \<noteq> []" by simp
    then show ?thesis
      unfolding cumulativeDistribution_exact [OF a] using a(1)
      by (simp add: last_map del: upt_Suc)
  qed
  with counts_sorted [of "values"] cumulativeDistribution_exact [of "values"] show ?thesis by blast
qed

theorem counts_nondecreasing_witness:
  "[3, 1, 2 :: real] \<noteq> [] \<and> length [3, 1, 2 :: real] \<le> 50
   \<and> Min (set [3, 1, 2 :: real]) < Max (set [3, 1, 2 :: real])
   \<and> chartData (cumulativeDistribution [3, 1, 2])
      = [\<lparr>pt_value = 1, pt_count = 1\<rparr>, \<lparr>pt_value = 2, pt_count = 2\<rparr>, \<lparr>pt_value = 3, pt_count = 3\<rparr>]
   \<and> sorted (map pt_count (chartData (cumulativeDistribution [3, 1, 2])))
   \<and> pt_count (last (chartData (cumulativeDistribution [3, 1, 2]))) = 3"
proof -
  have h: "[3, 1, 2 :: real] \<noteq> [] \<and> length [3, 1, 2 :: real] \<le> 50
      \<and> Min (set [3, 1, 2 :: real]) < Max (set [3, 1, 2 :: real])" by simp
  have up: "[0..<length [3, 1, 2 :: real]] = [0, 1, 2]" by (simp add: upt_rec)
  from counts_nondecreasing [of "[3, 1, 2]"] h show ?thesis
    unfolding up by simp
qed


end
